theory Spec2Isabelle
  imports Main "HOL-Library.Word"
begin

unbundle bit_operations_syntax

section \<open>JavaScript integer operators\<close>

text \<open>
  The bitwise operators of JavaScript convert their operands to signed 32-bit
  integers, take the shift count modulo 32 and return a signed 32-bit integer.
  The remainder operator truncates towards zero.  All numbers of the program
  are integers far below \<open>2 ^ 53\<close>, so they are modelled as \<open>int\<close>.
\<close>

definition js_shl :: "int \<Rightarrow> int \<Rightarrow> int" where
  "js_shl a b = sint (push_bit (nat (b mod 32)) (word_of_int a :: 32 word))"

definition js_and :: "int \<Rightarrow> int \<Rightarrow> int" where
  "js_and a b = sint ((word_of_int a :: 32 word) AND word_of_int b)"

definition js_rem :: "int \<Rightarrow> int \<Rightarrow> int" where
  "js_rem a b = sgn a * (\<bar>a\<bar> mod \<bar>b\<bar>)"

section \<open>Server/Singleton.js: sequence numbers and the timestamp\<close>

record singleton =
  sequenceNum :: int
  timeMark :: int

text \<open>\<open>Math.floor(Math.random() * 999) + 1\<close> lies in 1..999.\<close>

definition valid_seed :: "int \<Rightarrow> bool" where
  "valid_seed s = (1 \<le> s \<and> s \<le> 999)"

text \<open>The module starts with \<open>timeMark = sequenceNum\<close>.\<close>

definition initialize_singleton :: "int \<Rightarrow> singleton" where
  "initialize_singleton seed = \<lparr>sequenceNum = seed, timeMark = seed\<rparr>"

definition incrementSequence :: "singleton \<Rightarrow> int \<times> singleton" where
  "incrementSequence st =
     (let s = js_rem (sequenceNum st) 999 + 1
      in (s, st\<lparr>sequenceNum := s\<rparr>))"

definition incrementTimestamp :: "singleton \<Rightarrow> singleton" where
  "incrementTimestamp st =
     st\<lparr>timeMark := js_and (timeMark st + 1) (js_shl 1 32 - 1)\<rparr>"

definition getSequenceNumber :: "singleton \<Rightarrow> int \<times> singleton" where
  "getSequenceNumber st = incrementSequence st"

definition getTimestamp :: "singleton \<Rightarrow> int" where
  "getTimestamp st = timeMark st"

text \<open>The values returned by \<open>k\<close> successive calls of \<open>getSequenceNumber\<close>,
  and the state they leave.\<close>

fun sequence_calls :: "nat \<Rightarrow> singleton \<Rightarrow> int list" where
  "sequence_calls 0 st = []"
| "sequence_calls (Suc k) st =
     (case getSequenceNumber st of (v, st') \<Rightarrow> v # sequence_calls k st')"

fun after_calls :: "nat \<Rightarrow> singleton \<Rightarrow> singleton" where
  "after_calls 0 st = st"
| "after_calls (Suc k) st = after_calls k (snd (getSequenceNumber st))"

section \<open>Buffers and binary strings\<close>

text \<open>
  A \<open>Buffer\<close> is a \<open>Uint8Array\<close>: a list of bytes.  A store outside the array
  is ignored, as \<open>list_update\<close> does; a load outside it yields \<open>undefined\<close>,
  which the bitwise operators read as 0.  A store keeps the low 8 bits of the
  number stored, so \<open>buffer[k] |= (1 << bitIdx)\<close> and \<open>buffer[k] &= ~(1 << bitIdx)\<close>
  with \<open>bitIdx\<close> in 0..7 are the operations \<open>OR\<close> and \<open>AND NOT\<close> on 8-bit words.
\<close>

type_synonym byte = "8 word"
type_synonym buffer = "byte list"

text \<open>\<open>Buffer.alloc(n)\<close>: \<open>n\<close> zero bytes.\<close>

definition alloc :: "nat \<Rightarrow> buffer" where
  "alloc n = replicate n 0"

text \<open>\<open>s[i]\<close> on a string: \<open>undefined\<close> outside the string.\<close>

definition char_at :: "string \<Rightarrow> int \<Rightarrow> char option" where
  "char_at s i = (if 0 \<le> i \<and> i < int (length s) then Some (s ! nat i) else None)"

text \<open>
  \<open>data.toString(2)\<close> of an integer: its binary digits without leading zeros,
  after a minus sign when it is negative.
\<close>

fun bin_digits :: "nat \<Rightarrow> string" where
  "bin_digits n =
     (if n < 2 then [if n = 1 then CHR ''1'' else CHR ''0'']
      else bin_digits (n div 2) @ [if n mod 2 = 1 then CHR ''1'' else CHR ''0''])"

declare bin_digits.simps [simp del]

definition toString2 :: "int \<Rightarrow> string" where
  "toString2 d = (if d < 0 then CHR ''-'' # bin_digits (nat (- d)) else bin_digits (nat d))"

definition padStart :: "string \<Rightarrow> nat \<Rightarrow> char \<Rightarrow> string" where
  "padStart s n c = replicate (n - length s) c @ s"

text \<open>
  \<open>Buffer.slice(start, end)\<close>: negative indices count from the end, both are
  clamped to the buffer, and an empty range gives an empty buffer.
\<close>

definition slice :: "buffer \<Rightarrow> int \<Rightarrow> int \<Rightarrow> buffer" where
  "slice buf start end =
     (let len = int (length buf);
          s = (if start < 0 then max (len + start) 0 else min start len);
          e = (if end < 0 then max (len + end) 0 else min end len)
      in take (nat (e - s)) (drop (nat s) buf))"

text \<open>Bit \<open>j\<close> of a buffer, counted from the most significant bit of byte 0.\<close>

definition get_bit :: "buffer \<Rightarrow> nat \<Rightarrow> bool" where
  "get_bit buf j = (j < 8 * length buf \<and> bit (buf ! (j div 8)) (7 - j mod 8))"

section \<open>Client/ITPRequest.js: the bit packer of the request\<close>

text \<open>
  The loop of \<open>insertData\<close> runs \<open>i\<close> from \<open>position + size - 1\<close> down to
  \<open>position\<close>; the last argument counts the iterations left, so that
  \<open>i = position + n\<close>.
\<close>

fun insertData_loop :: "buffer \<Rightarrow> string \<Rightarrow> int \<Rightarrow> nat \<Rightarrow> nat \<Rightarrow> buffer" where
  "insertData_loop buffer binaryStr binaryIndex position 0 = buffer"
| "insertData_loop buffer binaryStr binaryIndex position (Suc n) =
     (let i = position + n;
          byteIdx = i div 8;
          bitIdx = 7 - i mod 8;
          buffer' = (if char_at binaryStr binaryIndex = Some CHR ''1''
                     then buffer[byteIdx := buffer ! byteIdx OR push_bit bitIdx 1]
                     else buffer[byteIdx := buffer ! byteIdx AND NOT (push_bit bitIdx 1)])
      in insertData_loop buffer' binaryStr (binaryIndex - 1) position n)"

definition insertData :: "buffer \<Rightarrow> int \<Rightarrow> nat \<Rightarrow> nat \<Rightarrow> buffer" where
  "insertData buffer data position sz =
     (let binaryStr = padStart (toString2 data) sz CHR ''0'';
          binaryIndex = int (length binaryStr) - 1
      in insertData_loop buffer binaryStr binaryIndex position sz)"

section \<open>Server/ITPResponse.js: the bit packer of the response\<close>

text \<open>
  The loop of \<open>encodeBitSection\<close> runs \<open>length\<close> times with \<open>endBitPos\<close>
  going down from \<open>start + length - 1\<close>; the last argument counts the iterations
  left, so that \<open>endBitPos = start + n\<close>.
\<close>

fun encodeBitSection_loop :: "buffer \<Rightarrow> string \<Rightarrow> int \<Rightarrow> nat \<Rightarrow> nat \<Rightarrow> buffer" where
  "encodeBitSection_loop buffer binData binIndex start 0 = buffer"
| "encodeBitSection_loop buffer binData binIndex start (Suc n) =
     (let endBitPos = start + n;
          byteIdx = endBitPos div 8;
          bitIdx = 7 - endBitPos mod 8;
          buffer' = buffer[byteIdx :=
                     (if char_at binData binIndex = Some CHR ''1''
                      then buffer ! byteIdx OR push_bit bitIdx 1
                      else buffer ! byteIdx AND NOT (push_bit bitIdx 1))]
      in encodeBitSection_loop buffer' binData (binIndex - 1) start n)"

definition encodeBitSection :: "buffer \<Rightarrow> int \<Rightarrow> nat \<Rightarrow> nat \<Rightarrow> buffer" where
  "encodeBitSection buffer data start len =
     (let binData = toString2 data;
          binIndex = int (length binData) - 1
      in encodeBitSection_loop buffer binData binIndex start len)"

record responseDetails =
  rd_sequence :: int
  rd_versionNum :: int
  rd_type :: int
  rd_time :: int
  rd_size :: int

definition configure :: "int \<Rightarrow> int \<Rightarrow> int \<Rightarrow> int \<Rightarrow> int \<Rightarrow> responseDetails" where
  "configure sequence version type time sz =
     \<lparr>rd_sequence = sequence, rd_versionNum = version, rd_type = type,
      rd_time = time, rd_size = sz\<rparr>"

definition assemblePacket :: "responseDetails \<Rightarrow> buffer" where
  "assemblePacket rd =
     (let packetHeader = alloc 12;
          packetHeader = encodeBitSection packetHeader (rd_versionNum rd) 0 4;
          packetHeader = encodeBitSection packetHeader (rd_type rd) 4 2;
          packetHeader = encodeBitSection packetHeader (rd_sequence rd) 6 26;
          packetHeader = encodeBitSection packetHeader (rd_time rd) 32 32;
          packetHeader = encodeBitSection packetHeader (rd_size rd) 64 32
      in packetHeader)"

section \<open>Reading bit fields\<close>

text \<open>
  \<open>packet[byteIdx] >> bitIdx\<close>: the byte as a 32-bit operand, 0 when the index
  is outside the packet.
\<close>

definition byte_at :: "buffer \<Rightarrow> nat \<Rightarrow> 32 word" where
  "byte_at packet byteIdx = (if byteIdx < length packet then ucast (packet ! byteIdx) else 0)"

text \<open>
  \<open>value = (value << 1) | bit\<close> is computed on signed 32-bit integers: the
  accumulator is a 32-bit word and the number returned is its signed reading.
  The server's \<open>extractDataBits\<close> and the client's \<open>extractBits\<close> are the
  same loop.
\<close>

definition extractDataBits :: "buffer \<Rightarrow> nat \<Rightarrow> nat \<Rightarrow> int" where
  "extractDataBits packet offset len =
     sint (fold (\<lambda>i value.
             let byteIdx = (offset + i) div 8;
                 bitIdx = 7 - (offset + i) mod 8;
                 b = drop_bit bitIdx (byte_at packet byteIdx) AND 1
             in push_bit 1 value OR b) [0..<len] (0 :: 32 word))"

definition extractBits :: "buffer \<Rightarrow> nat \<Rightarrow> nat \<Rightarrow> int" where
  "extractBits packet offset len =
     sint (fold (\<lambda>i value.
             let byteIndex = (offset + i) div 8;
                 bitIndex = 7 - (offset + i) mod 8;
                 b = drop_bit bitIndex (byte_at packet byteIndex) AND 1
             in push_bit 1 value OR b) [0..<len] (0 :: 32 word))"

section \<open>JavaScript strings and their UTF-8 form\<close>

text \<open>
  A JavaScript string is a sequence of UTF-16 code units.  \<open>for (let char of str)\<close>
  yields one string per code point: a high surrogate followed by a low
  surrogate is yielded as one string of two units.
\<close>

type_synonym jsstring = "16 word list"

definition str :: "string \<Rightarrow> jsstring" where
  "str s = map of_char s"

definition is_high :: "16 word \<Rightarrow> bool" where
  "is_high c = (0xD800 \<le> c \<and> c \<le> 0xDBFF)"

definition is_low :: "16 word \<Rightarrow> bool" where
  "is_low c = (0xDC00 \<le> c \<and> c \<le> 0xDFFF)"

fun string_iter :: "jsstring \<Rightarrow> jsstring list" where
  "string_iter [] = []"
| "string_iter [c] = [[c]]"
| "string_iter (c # d # cs) =
     (if is_high c \<and> is_low d then [c, d] # string_iter cs
      else [c] # string_iter (d # cs))"

text \<open>\<open>char.charCodeAt(0)\<close>: the first code unit, a number in 0..65535.\<close>

definition charCodeAt0 :: "jsstring \<Rightarrow> nat" where
  "charCodeAt0 char = unat (hd char)"

text \<open>
  The code points that \<open>Buffer.write\<close> encodes: a surrogate pair is one code
  point, a lone surrogate is replaced by U+FFFD.
\<close>

fun code_points :: "jsstring \<Rightarrow> nat list" where
  "code_points [] = []"
| "code_points [c] = [if is_high c \<or> is_low c then 0xFFFD else unat c]"
| "code_points (c # d # cs) =
     (if is_high c \<and> is_low d
      then (0x10000 + (unat c - 0xD800) * 0x400 + (unat d - 0xDC00)) # code_points cs
      else (if is_high c \<or> is_low c then 0xFFFD else unat c) # code_points (d # cs))"

definition utf8_bytes :: "nat \<Rightarrow> buffer" where
  "utf8_bytes cp =
     (if cp < 0x80 then [of_nat cp]
      else if cp < 0x800 then [of_nat (0xC0 + cp div 0x40), of_nat (0x80 + cp mod 0x40)]
      else if cp < 0x10000 then
        [of_nat (0xE0 + cp div 0x1000), of_nat (0x80 + cp div 0x40 mod 0x40),
         of_nat (0x80 + cp mod 0x40)]
      else
        [of_nat (0xF0 + cp div 0x40000), of_nat (0x80 + cp div 0x1000 mod 0x40),
         of_nat (0x80 + cp div 0x40 mod 0x40), of_nat (0x80 + cp mod 0x40)])"

definition utf8_encode :: "jsstring \<Rightarrow> buffer" where
  "utf8_encode s = concat (map utf8_bytes (code_points s))"

text \<open>
  \<open>buf.write(string, offset)\<close> writes the UTF-8 form of the string from
  \<open>offset\<close> on.  When the buffer has too little room it writes the characters
  that fit whole and stops: a partially encoded character is never written.
  (Node raises when \<open>offset\<close> is beyond the buffer; \<open>getPacket\<close> writes at
  offset 12 into a buffer of at least 12 bytes.)
\<close>

fun fit_chars :: "buffer list \<Rightarrow> nat \<Rightarrow> buffer" where
  "fit_chars [] room = []"
| "fit_chars (ch # chs) room =
     (if length ch \<le> room then ch @ fit_chars chs (room - length ch) else [])"

definition buffer_write :: "buffer \<Rightarrow> jsstring \<Rightarrow> nat \<Rightarrow> buffer" where
  "buffer_write buf s offset =
     (let bytes = fit_chars (map utf8_bytes (code_points s)) (length buf - offset)
      in take offset buf @ bytes @ drop (offset + length bytes) buf)"

text \<open>
  \<open>buf.toString()\<close> decodes UTF-8.  The decoder keeps the code point read so
  far, the number of continuation bytes still needed and the range allowed
  for the next byte; an ill-formed sequence gives U+FFFD and the offending
  byte is read again as the start of a character.
\<close>

function utf8_decode :: "nat \<Rightarrow> nat \<Rightarrow> nat \<Rightarrow> nat \<Rightarrow> nat list \<Rightarrow> nat list" where
  "utf8_decode cp needed lower upper [] = (if needed \<noteq> 0 then [0xFFFD] else [])"
| "utf8_decode cp needed lower upper (b # bs) =
     (if needed = 0 then
        (if b \<le> 0x7F then b # utf8_decode 0 0 0x80 0xBF bs
         else if 0xC2 \<le> b \<and> b \<le> 0xDF then utf8_decode (b mod 0x20) 1 0x80 0xBF bs
         else if 0xE0 \<le> b \<and> b \<le> 0xEF then
           utf8_decode (b mod 0x10) 2 (if b = 0xE0 then 0xA0 else 0x80)
             (if b = 0xED then 0x9F else 0xBF) bs
         else if 0xF0 \<le> b \<and> b \<le> 0xF4 then
           utf8_decode (b mod 8) 3 (if b = 0xF0 then 0x90 else 0x80)
             (if b = 0xF4 then 0x8F else 0xBF) bs
         else 0xFFFD # utf8_decode 0 0 0x80 0xBF bs)
      else if b < lower \<or> upper < b then 0xFFFD # utf8_decode 0 0 0x80 0xBF (b # bs)
      else if needed = 1 then (cp * 0x40 + b mod 0x40) # utf8_decode 0 0 0x80 0xBF bs
      else utf8_decode (cp * 0x40 + b mod 0x40) (needed - 1) 0x80 0xBF bs)"
  by pat_completeness auto
termination
  by (relation "measure (\<lambda>(cp, needed, lower, upper, bs).
        2 * length bs + (if needed = 0 then 0 else 1))") auto

definition utf16_units :: "nat \<Rightarrow> jsstring" where
  "utf16_units cp =
     (if cp < 0x10000 then [of_nat cp]
      else [of_nat (0xD800 + (cp - 0x10000) div 0x400),
            of_nat (0xDC00 + (cp - 0x10000) mod 0x400)])"

definition buffer_toString :: "buffer \<Rightarrow> jsstring" where
  "buffer_toString buf = concat (map utf16_units (utf8_decode 0 0 0x80 0xBF (map unat buf)))"

section \<open>Client/ITPRequest.js: the request packet\<close>

text \<open>
  The \<open>do \<dots> while (code)\<close> loop of \<open>toByteArr\<close>: push \<open>code & 0xFF\<close>, then
  \<open>code >>= 8\<close>, until the code is 0.
\<close>

function code_bytes :: "nat \<Rightarrow> nat list" where
  "code_bytes code =
     (code AND 0xFF) # (if drop_bit 8 code \<noteq> 0 then code_bytes (drop_bit 8 code) else [])"
  by pat_completeness auto
termination
  by (relation "measure id") (auto simp add: drop_bit_eq_div intro: div_less_dividend)

declare code_bytes.simps [simp del]

definition toByteArr :: "jsstring \<Rightarrow> nat list" where
  "toByteArr s =
     fold (\<lambda>char result. result @ rev (code_bytes (charCodeAt0 char))) (string_iter s) []"

definition calculateNameLength :: "jsstring \<Rightarrow> nat" where
  "calculateNameLength name = length (toByteArr name)"

record packetDetails =
  pd_version :: int
  pd_actionType :: int
  pd_timeMark :: int
  pd_imgType :: int
  pd_imgName :: jsstring
  pd_nameLength :: nat

definition initialize :: "int \<Rightarrow> int \<Rightarrow> int \<Rightarrow> int \<Rightarrow> jsstring \<Rightarrow> packetDetails" where
  "initialize version actionType tm imgType imgName =
     \<lparr>pd_version = version, pd_actionType = actionType, pd_timeMark = tm,
      pd_imgType = imgType, pd_imgName = imgName,
      pd_nameLength = calculateNameLength imgName\<rparr>"

definition getPacket :: "packetDetails \<Rightarrow> buffer" where
  "getPacket pd =
     (let bufferPacket = alloc (12 + pd_nameLength pd);
          bufferPacket = insertData bufferPacket (pd_version pd) 0 4;
          bufferPacket = insertData bufferPacket (pd_actionType pd) 30 2;
          bufferPacket = insertData bufferPacket (pd_timeMark pd) 32 32;
          bufferPacket = insertData bufferPacket (pd_imgType pd) 64 4;
          bufferPacket = insertData bufferPacket (int (pd_nameLength pd)) 68 28
      in buffer_write bufferPacket (pd_imgName pd) 12)"

section \<open>The server's client handler\<close>

record details =
  version :: int
  timestamp :: int
  imageType :: int
  fileName :: jsstring

definition getFileName :: "buffer \<Rightarrow> jsstring" where
  "getFileName data =
     (let nameSize = extractDataBits data 68 28
      in buffer_toString (slice data 12 (12 + nameSize)))"

definition extractDetails :: "buffer \<Rightarrow> details" where
  "extractDetails data =
     \<lparr>version = extractDataBits data 0 4,
      timestamp = extractDataBits data 32 32,
      imageType = extractDataBits data 64 4,
      fileName = getFileName data\<rparr>"

definition mapTypeToExtension :: "int \<Rightarrow> string" where
  "mapTypeToExtension t =
     (if t = 1 then ''PNG''
      else if t = 2 then ''BMP''
      else if t = 3 then ''TIFF''
      else if t = 4 then ''JPEG''
      else if t = 5 then ''GIF''
      else if t = 15 then ''RAW''
      else ''unknown'')"

text \<open>
  The file system is a parameter.  It is keyed by the name
  \<open>`${fileName}.${extension}`\<close> that \<open>constructFilePath\<close> joins to the
  \<open>images\<close> directory of the server.  An entry that exists is either readable,
  with its bytes, or one on which \<open>readFileSync\<close> raises (a directory, say).
\<close>

datatype entry = Readable buffer | Unreadable

type_synonym filesystem = "jsstring \<Rightarrow> entry option"

datatype error = ReadError

definition constructFilePath :: "jsstring \<Rightarrow> int \<Rightarrow> jsstring" where
  "constructFilePath name imgType =
     (let extension = mapTypeToExtension imgType
      in name @ str ''.'' @ str extension)"

definition existsSync :: "filesystem \<Rightarrow> jsstring \<Rightarrow> bool" where
  "existsSync fs path = (fs path \<noteq> None)"

definition readFileSync :: "filesystem \<Rightarrow> jsstring \<Rightarrow> error + buffer" where
  "readFileSync fs path = (case fs path of Some (Readable bytes) \<Rightarrow> Inr bytes | _ \<Rightarrow> Inl ReadError)"

text \<open>
  What the handler does on the socket, in order.  The log lines are left out,
  and with them the parameter \<open>originalSequenceNumber\<close> of \<open>handleData\<close>, which
  is used for nothing else.
\<close>

datatype sock_event = Write buffer | End

text \<open>
  \<open>preparePacket\<close> draws a sequence number from the singleton; \<open>imageData\<close> is
  \<open>null\<close> for the error response.
\<close>

definition preparePacket ::
  "buffer option \<Rightarrow> int \<Rightarrow> int \<Rightarrow> int \<Rightarrow> singleton \<Rightarrow> buffer \<times> singleton" where
  "preparePacket imageData ver ts responseType st =
     (case getSequenceNumber st of (sequenceNumber, st') \<Rightarrow>
        let sz = (case imageData of Some bytes \<Rightarrow> int (length bytes) | None \<Rightarrow> 0);
            header = assemblePacket (configure sequenceNumber ver responseType ts sz)
        in (case imageData of Some bytes \<Rightarrow> header @ bytes | None \<Rightarrow> header, st'))"

definition sendImageResponse ::
  "filesystem \<Rightarrow> jsstring \<Rightarrow> details \<Rightarrow> singleton \<Rightarrow> error + sock_event list \<times> singleton" where
  "sendImageResponse fs filePath d st =
     (case readFileSync fs filePath of
        Inl e \<Rightarrow> Inl e
      | Inr imageData \<Rightarrow>
          (case preparePacket (Some imageData) (version d) (timestamp d) 1 st of
             (packet, st') \<Rightarrow> Inr ([Write packet], st')))"

definition sendErrorResponse :: "details \<Rightarrow> singleton \<Rightarrow> sock_event list \<times> singleton" where
  "sendErrorResponse d st =
     (case preparePacket None (version d) (timestamp d) 2 st of
        (packet, st') \<Rightarrow> ([Write packet], st'))"

definition handleData ::
  "filesystem \<Rightarrow> buffer \<Rightarrow> singleton \<Rightarrow> error + sock_event list \<times> singleton" where
  "handleData fs incomingData st =
     (let d = extractDetails incomingData;
          filePath = constructFilePath (fileName d) (imageType d)
      in if existsSync fs filePath
         then (case sendImageResponse fs filePath d st of
                 Inl e \<Rightarrow> Inl e
               | Inr (events, st') \<Rightarrow> Inr (events @ [End], st'))
         else (case sendErrorResponse d st of
                 (events, st') \<Rightarrow> Inr (events @ [End], st')))"



section \<open>The client\<close>

record header_fields =
  hdr_version :: int
  hdr_type :: int
  hdr_sequence :: int
  hdr_timestamp :: int

definition processHeader :: "buffer \<Rightarrow> header_fields" where
  "processHeader header =
     \<lparr>hdr_version = extractBits header 0 4,
      hdr_type = extractBits header 4 2,
      hdr_sequence = extractBits header 6 26,
      hdr_timestamp = extractBits header 32 32\<rparr>"

text \<open>What the client does on a \<open>data\<close> event, in order (log lines apart).\<close>

datatype client_event = WriteFile jsstring buffer | OpenViewer jsstring | EndConnection

definition saveImage :: "jsstring \<Rightarrow> buffer \<Rightarrow> client_event list" where
  "saveImage imageName imageData = [WriteFile imageName imageData]"

definition handleResponse :: "jsstring \<Rightarrow> buffer \<Rightarrow> header_fields \<times> client_event list" where
  "handleResponse imageName data =
     (let header = slice data 0 12;
          logged = processHeader header
      in (logged,
          saveImage imageName (slice data 12 (int (length data)))
            @ [OpenViewer imageName] @ [EndConnection]))"

section \<open>Helper observations\<close>

text \<open>One iteration of either packing loop, and the magnitude whose binary
  digits the loops read.\<close>

definition write_bit :: "buffer \<Rightarrow> nat \<Rightarrow> bool \<Rightarrow> buffer" where
  "write_bit buf i v =
     buf[i div 8 := (if v then buf ! (i div 8) OR push_bit (7 - i mod 8) 1
                     else buf ! (i div 8) AND NOT (push_bit (7 - i mod 8) 1))]"

definition magnitude :: "int \<Rightarrow> nat" where
  "magnitude d = nat \<bar>d\<bar>"

definition extract_step :: "buffer \<Rightarrow> nat \<Rightarrow> nat \<Rightarrow> 32 word \<Rightarrow> 32 word" where
  "extract_step packet offset = (\<lambda>i value.
             let byteIdx = (offset + i) div 8;
                 bitIdx = 7 - (offset + i) mod 8;
                 b = drop_bit bitIdx (byte_at packet byteIdx) AND 1
             in push_bit 1 value OR b)"

definition is_ascii :: "jsstring \<Rightarrow> bool" where
  "is_ascii s = list_all (\<lambda>c. c < 0x80) s"

text \<open>The \<open>len\<close> bits from \<open>off\<close> on spell the number \<open>m\<close>, most significant
  bit first.\<close>

definition holds_field :: "buffer \<Rightarrow> nat \<Rightarrow> nat \<Rightarrow> nat \<Rightarrow> bool" where
  "holds_field buf off len m = (\<forall>k<len. get_bit buf (off + len - 1 - k) = bit m k)"

section \<open>Properties of the sequence and clock source\<close>

lemma js_shl_1_32: "js_shl 1 32 = 1"
  by (simp add: js_shl_def)

lemma incrementTimestamp_zero: "timeMark (incrementTimestamp st) = 0"
  by (simp add: incrementTimestamp_def js_shl_1_32 js_and_def)

lemma js_rem_nonneg: "0 \<le> a \<Longrightarrow> 0 < b \<Longrightarrow> js_rem a b = a mod b"
  by (cases "a = 0") (simp_all add: js_rem_def)

lemma getSequenceNumber_valid:
  assumes "valid_seed (sequenceNum st)"
  shows "fst (getSequenceNumber st) = sequenceNum st mod 999 + 1"
    and "sequenceNum (snd (getSequenceNumber st)) = sequenceNum st mod 999 + 1"
    and "valid_seed (sequenceNum (snd (getSequenceNumber st)))"
proof -
  have r: "js_rem (sequenceNum st) 999 = sequenceNum st mod 999"
    using assms by (simp add: valid_seed_def js_rem_nonneg)
  show "fst (getSequenceNumber st) = sequenceNum st mod 999 + 1"
    by (simp add: getSequenceNumber_def incrementSequence_def Let_def r)
  show "sequenceNum (snd (getSequenceNumber st)) = sequenceNum st mod 999 + 1"
    by (simp add: getSequenceNumber_def incrementSequence_def Let_def r)
  have "0 \<le> sequenceNum st mod 999" "sequenceNum st mod 999 < 999"
    by simp_all
  then show "valid_seed (sequenceNum (snd (getSequenceNumber st)))"
    by (simp add: getSequenceNumber_def incrementSequence_def Let_def r valid_seed_def)
qed

lemma after_calls_sequenceNum:
  "valid_seed (sequenceNum st) \<Longrightarrow>
   sequenceNum (after_calls k st) = (sequenceNum st - 1 + int k) mod 999 + 1"
proof (induction k arbitrary: st)
  case 0
  then show ?case by (simp add: valid_seed_def)
next
  case (Suc k)
  let ?st' = "snd (getSequenceNumber st)"
  have v: "valid_seed (sequenceNum ?st')"
    using Suc.prems by (rule getSequenceNumber_valid)
  have "sequenceNum (after_calls (Suc k) st) = (sequenceNum ?st' - 1 + int k) mod 999 + 1"
    using Suc.IH [OF v] by simp
  also have "sequenceNum ?st' = sequenceNum st mod 999 + 1"
    using Suc.prems by (rule getSequenceNumber_valid)
  also have "(sequenceNum st mod 999 + 1 - 1 + int k) mod 999 =
             (sequenceNum st - 1 + int (Suc k)) mod 999"
    by (simp add: mod_simps algebra_simps)
  finally show ?case .
qed

lemma sequence_calls_nth:
  "valid_seed (sequenceNum st) \<Longrightarrow> i < k \<Longrightarrow>
   sequence_calls k st ! i = (sequenceNum st + int i) mod 999 + 1"
proof (induction k arbitrary: st i)
  case 0
  then show ?case by simp
next
  case (Suc k)
  let ?st' = "snd (getSequenceNumber st)"
  have v: "valid_seed (sequenceNum ?st')"
    using Suc.prems(1) by (rule getSequenceNumber_valid)
  have s': "sequenceNum ?st' = sequenceNum st mod 999 + 1"
    using Suc.prems(1) by (rule getSequenceNumber_valid)
  show ?case
  proof (cases i)
    case 0
    then show ?thesis
      using getSequenceNumber_valid(1) [OF Suc.prems(1)]
      by (cases "getSequenceNumber st") simp
  next
    case (Suc j)
    then have "j < k" using Suc.prems(2) by simp
    then have "sequence_calls k ?st' ! j = (sequenceNum ?st' + int j) mod 999 + 1"
      using Suc.IH [OF v] by simp
    also have "(sequenceNum ?st' + int j) mod 999 = (sequenceNum st + int i) mod 999"
    proof -
      have "(sequenceNum st mod 999 + (1 + int j)) mod 999 =
            (sequenceNum st + (1 + int j)) mod 999"
        by (rule mod_add_left_eq)
      then show ?thesis unfolding s' using Suc by (simp add: add.assoc)
    qed
    finally show ?thesis
      using Suc by (cases "getSequenceNumber st") simp
  qed
qed

section \<open>Properties of the bit packer\<close>

lemma length_write_bit [simp]: "length (write_bit buf i v) = length buf"
  by (simp add: write_bit_def)

lemma bit_idx_inj: "i div 8 = j div 8 \<Longrightarrow> 7 - i mod 8 = 7 - j mod 8 \<Longrightarrow> i = (j::nat)"
proof -
  assume a: "i div 8 = j div 8" and b: "7 - i mod 8 = 7 - j mod 8"
  have "i mod 8 < 8" "j mod 8 < 8" by simp_all
  with b have "i mod 8 = j mod 8" by linarith
  with a show "i = j" by (metis div_mult_mod_eq)
qed

lemma get_bit_write_bit:
  "get_bit (write_bit buf i v) j =
     (if j = i \<and> i < 8 * length buf then v else get_bit buf j)"
proof (cases "j < 8 * length buf")
  case False
  then show ?thesis by (auto simp: get_bit_def)
next
  case True
  then have jl: "j div 8 < length buf" by simp
  show ?thesis
  proof (cases "j = i")
    case True
    have "7 - i mod 8 < 8" by simp
    then show ?thesis
      using True jl \<open>j < 8 * length buf\<close>
      by (simp add: get_bit_def write_bit_def bit_simps)
  next
    case False
    show ?thesis
    proof (cases "i div 8 = j div 8")
      case True
      then have "7 - i mod 8 \<noteq> 7 - j mod 8"
        using False bit_idx_inj by blast
      then show ?thesis
        using True jl False
        by (auto simp add: get_bit_def write_bit_def bit_simps)
    next
      case False
      then show ?thesis
        using \<open>j \<noteq> i\<close> by (simp add: get_bit_def write_bit_def)
    qed
  qed
qed

lemma insertData_loop_step:
  "insertData_loop buffer s bi p (Suc n) =
     insertData_loop (write_bit buffer (p + n) (char_at s bi = Some CHR ''1'')) s (bi - 1) p n"
  by (simp add: write_bit_def Let_def)

lemma encodeBitSection_loop_eq:
  "encodeBitSection_loop buffer s bi p n = insertData_loop buffer s bi p n"
  by (induction n arbitrary: buffer bi) (simp_all add: Let_def)

lemma length_insertData_loop [simp]:
  "length (insertData_loop buffer s bi p n) = length buffer"
  by (induction n arbitrary: buffer bi) (simp_all add: Let_def)

lemma get_bit_insertData_loop:
  "get_bit (insertData_loop buf s bi p n) j =
     (if p \<le> j \<and> j < p + n \<and> j < 8 * length buf
      then char_at s (bi - int (p + n - 1 - j)) = Some CHR ''1''
      else get_bit buf j)"
proof (induction n arbitrary: buf bi)
  case 0
  then show ?case by auto
next
  case (Suc n)
  let ?v = "char_at s bi = Some CHR ''1''"
  let ?buf = "write_bit buf (p + n) ?v"
  have ih: "get_bit (insertData_loop buf s bi p (Suc n)) j =
     (if p \<le> j \<and> j < p + n \<and> j < 8 * length buf
      then char_at s (bi - 1 - int (p + n - 1 - j)) = Some CHR ''1''
      else get_bit ?buf j)"
    unfolding insertData_loop_step by (simp add: Suc.IH)
  show ?case
  proof (cases "j = p + n")
    case True
    have "get_bit (insertData_loop buf s bi p (Suc n)) (p + n) = get_bit ?buf (p + n)"
      using ih unfolding True by simp
    also have "\<dots> = (if p + n < 8 * length buf then ?v else get_bit buf (p + n))"
      by (simp add: get_bit_write_bit)
    finally show ?thesis unfolding True by simp
  next
    case False
    have e: "bi - 1 - int (p + n - 1 - j) = bi - int (p + Suc n - 1 - j)"
      if "p \<le> j \<and> j < p + n"
      using that by (simp add: of_nat_diff)
    have w: "get_bit ?buf j = get_bit buf j"
      using False by (simp add: get_bit_write_bit)
    show ?thesis
    proof (cases "p \<le> j \<and> j < p + n")
      case True
      then show ?thesis unfolding ih e [OF True] w by simp
    next
      case False
      then have "\<not> (p \<le> j \<and> j < p + Suc n)"
        using \<open>j \<noteq> p + n\<close> by auto
      then show ?thesis unfolding ih w using False by auto
    qed
  qed
qed

lemma bin_digits_bound: "m < 2 ^ length (bin_digits m)"
proof (induction m rule: bin_digits.induct)
  case (1 n)
  show ?case
  proof (cases "n < 2")
    case True
    then show ?thesis by (subst bin_digits.simps) simp
  next
    case False
    then have "n div 2 < 2 ^ length (bin_digits (n div 2))" using 1 by simp
    then have "n < 2 * 2 ^ length (bin_digits (n div 2))" by linarith
    then show ?thesis using False by (subst bin_digits.simps) simp
  qed
qed

lemma bin_digits_nth:
  "k < length (bin_digits m) \<Longrightarrow>
   (bin_digits m ! (length (bin_digits m) - 1 - k) = CHR ''1'') = bit m k"
proof (induction m arbitrary: k rule: bin_digits.induct)
  case (1 n)
  show ?case
  proof (cases "n < 2")
    case True
    then have d: "bin_digits n = [if n = 1 then CHR ''1'' else CHR ''0'']"
      by (subst bin_digits.simps) simp
    with "1.prems" have k: "k = 0" by simp
    from True have "n = 0 \<or> n = 1" by linarith
    then show ?thesis using d k by (auto simp: bit_0)
  next
    case False
    then have d: "bin_digits n = bin_digits (n div 2) @ [if n mod 2 = 1 then CHR ''1'' else CHR ''0'']"
      by (subst bin_digits.simps) simp
    show ?thesis
    proof (cases k)
      case 0
      then show ?thesis unfolding d by (auto simp: bit_0 odd_iff_mod_2_eq_one)
    next
      case (Suc k')
      then have k': "k' < length (bin_digits (n div 2))"
        using "1.prems" unfolding d by simp
      then have "(bin_digits (n div 2) ! (length (bin_digits (n div 2)) - 1 - k') = CHR ''1'')
          = bit (n div 2) k'"
        using "1.IH" False by simp
      then show ?thesis
        unfolding d using Suc k' by (simp add: nth_append bit_Suc)
    qed
  qed
qed

lemma digits_char_at:
  assumes "CHR ''1'' \<notin> set pre"
  shows "(char_at (pre @ bin_digits m) (int (length (pre @ bin_digits m)) - 1 - int k) = Some CHR ''1'')
         = bit m k"
proof (cases "k < length (bin_digits m)")
  case True
  define x where "x = length (bin_digits m) - 1 - k"
  have i: "int (length (pre @ bin_digits m)) - 1 - int k = int (length pre + x)"
    using True by (simp add: x_def)
  have "char_at (pre @ bin_digits m) (int (length pre + x)) = Some (bin_digits m ! x)"
    using True unfolding char_at_def nat_int nth_append_length_plus
    by (simp add: x_def)
  then show ?thesis
    unfolding i using bin_digits_nth [OF True] by (simp add: x_def)
next
  case False
  have "m < 2 ^ length (bin_digits m)" by (rule bin_digits_bound)
  also have "\<dots> \<le> 2 ^ k" using False by (simp add: power_increasing)
  finally have nb: "\<not> bit m k" by (simp add: bit_iff_odd)
  show ?thesis
  proof (cases "0 \<le> int (length (pre @ bin_digits m)) - 1 - int k")
    case True
    then have "nat (int (length (pre @ bin_digits m)) - 1 - int k) < length pre"
      using False by auto
    then have "(pre @ bin_digits m) ! nat (int (length (pre @ bin_digits m)) - 1 - int k) \<in> set pre"
      by (simp add: nth_append)
    then show ?thesis using assms nb by (auto simp: char_at_def)
  next
    case False
    then show ?thesis using nb by (simp add: char_at_def)
  qed
qed

lemma toString2_char_at:
  "(char_at (toString2 d) (int (length (toString2 d)) - 1 - int k) = Some CHR ''1'')
     = bit (magnitude d) k"
proof (cases "d < 0")
  case True
  have "CHR ''1'' \<notin> set ''-''" by simp
  from digits_char_at [OF this, of "nat (- d)" k] show ?thesis
    using True by (simp add: toString2_def magnitude_def)
next
  case False
  have "CHR ''1'' \<notin> set []" by simp
  from digits_char_at [OF this, of "nat d" k] show ?thesis
    using False by (simp add: toString2_def magnitude_def)
qed

lemma padStart_char_at:
  "(char_at (padStart (toString2 d) n CHR ''0'')
       (int (length (padStart (toString2 d) n CHR ''0'')) - 1 - int k) = Some CHR ''1'')
     = bit (magnitude d) k"
proof (cases "d < 0")
  case True
  have "CHR ''1'' \<notin> set (replicate (n - length (toString2 d)) CHR ''0'' @ ''-'')" by simp
  from digits_char_at [OF this, of "nat (- d)" k] show ?thesis
    using True by (simp add: toString2_def magnitude_def padStart_def)
next
  case False
  have "CHR ''1'' \<notin> set (replicate (n - length (toString2 d)) CHR ''0'')" by simp
  from digits_char_at [OF this, of "nat d" k] show ?thesis
    using False by (simp add: toString2_def magnitude_def padStart_def)
qed

lemma length_insertData [simp]: "length (insertData buf d p n) = length buf"
  by (simp add: insertData_def Let_def)

lemma length_encodeBitSection [simp]: "length (encodeBitSection buf d p n) = length buf"
  by (simp add: encodeBitSection_def Let_def encodeBitSection_loop_eq)

lemma get_bit_insertData:
  "get_bit (insertData buf d p n) j =
     (if p \<le> j \<and> j < p + n \<and> j < 8 * length buf
      then bit (magnitude d) (p + n - 1 - j) else get_bit buf j)"
  by (simp only: insertData_def Let_def get_bit_insertData_loop padStart_char_at)

lemma get_bit_encodeBitSection:
  "get_bit (encodeBitSection buf d p n) j =
     (if p \<le> j \<and> j < p + n \<and> j < 8 * length buf
      then bit (magnitude d) (p + n - 1 - j) else get_bit buf j)"
  by (simp only: encodeBitSection_def Let_def encodeBitSection_loop_eq
      get_bit_insertData_loop toString2_char_at)

lemma byte_at_bit:
  "bit (drop_bit (7 - j mod 8) (byte_at packet (j div 8)) AND 1) k = (k = 0 \<and> get_bit packet j)"
  by (auto simp add: byte_at_def get_bit_def bit_simps bit_1_iff)

lemma bit_shift_or: "bit (push_bit 1 (w::32 word) OR b) k = ((0 < k \<and> k < 32 \<and> bit w (k - 1)) \<or> bit b k)"
  by (simp only: bit_or_iff bit_push_bit_iff possible_bit_word) auto

lemma sint_small: "v < 2 ^ 31 \<Longrightarrow> sint (word_of_nat v :: 32 word) = int v"
proof -
  assume a: "v < 2 ^ 31"
  have "sint (word_of_nat v :: 32 word) = sint (word_of_int (int v) :: 32 word)"
    by simp
  also have "\<dots> = signed_take_bit 31 (int v)"
    by (simp only: sint_sbintrunc') simp
  also have "\<dots> = int v"
  proof (rule signed_take_bit_int_eq_self)
    show "- (2 ^ 31) \<le> int v" by (rule order_trans [of _ 0]) simp_all
    have "int v < int (2 ^ 31)" using a by (simp only: of_nat_less_iff)
    then show "int v < 2 ^ 31" by simp
  qed
  finally show ?thesis .
qed


lemma extract_fold_bit:
  "bit (fold (extract_step packet offset) [0..<len] 0) k =
     (k < 32 \<and> k < len \<and> get_bit packet (offset + len - 1 - k))"
proof (induction len arbitrary: k)
  case 0
  then show ?case by simp
next
  case (Suc len)
  have s: "fold (extract_step packet offset) [0..<Suc len] 0 =
      push_bit 1 (fold (extract_step packet offset) [0..<len] 0)
        OR (drop_bit (7 - (offset + len) mod 8) (byte_at packet ((offset + len) div 8)) AND 1)"
    by (simp add: extract_step_def Let_def del: push_bit_of_Suc_0)
  show ?case
  proof (cases k)
    case 0
    then show ?thesis
      unfolding s bit_shift_or byte_at_bit by simp
  next
    case (Suc k')
    then show ?thesis
      unfolding s bit_shift_or byte_at_bit Suc.IH by auto
  qed
qed

lemma extractDataBits_fold:
  "extractDataBits packet offset len = sint (fold (extract_step packet offset) [0..<len] 0)"
  by (simp add: extractDataBits_def extract_step_def)

lemma extractDataBits_eq:
  assumes "\<And>k. k < 32 \<Longrightarrow> (k < len \<and> get_bit packet (offset + len - 1 - k)) = bit v k"
  shows "extractDataBits packet offset len = sint (word_of_nat v :: 32 word)"
proof -
  have "fold (extract_step packet offset) [0..<len] 0 = (word_of_nat v :: 32 word)"
    using assms by (intro bit_word_eqI) (simp add: extract_fold_bit bit_simps)
  then show ?thesis by (simp add: extractDataBits_fold)
qed

subsection \<open>Fields of a buffer\<close>

lemma not_bit_of_less: "(m::nat) < 2 ^ len \<Longrightarrow> len \<le> k \<Longrightarrow> \<not> bit m k"
proof -
  assume "m < 2 ^ len" "len \<le> k"
  then have "m < 2 ^ k"
    by (meson less_le_trans one_le_numeral power_increasing)
  then show ?thesis by (simp add: bit_iff_odd)
qed

lemma extract_of_field:
  assumes "holds_field buf off len m" and "m < 2 ^ len"
  shows "extractDataBits buf off len = sint (word_of_nat m :: 32 word)"
proof (rule extractDataBits_eq)
  fix k :: nat
  assume "k < 32"
  show "(k < len \<and> get_bit buf (off + len - 1 - k)) = bit m k"
  proof (cases "k < len")
    case True
    then show ?thesis using assms(1) by (simp add: holds_field_def)
  next
    case False
    then show ?thesis using not_bit_of_less [OF assms(2), of k] by simp
  qed
qed

lemma extract_of_field_small:
  assumes "holds_field buf off len m" and "m < 2 ^ len" and "len \<le> 31"
  shows "extractDataBits buf off len = int m"
proof -
  have "(2::nat) ^ len \<le> 2 ^ 31"
    by (rule power_increasing) (use assms(3) in simp_all)
  then have "m < 2 ^ 31" using assms(2) by linarith
  then show ?thesis
    using extract_of_field [OF assms(1,2)] by (simp only: sint_small)
qed

lemma holds_field_insertData_same:
  "off + len \<le> 8 * length buf \<Longrightarrow> holds_field (insertData buf d off len) off len (magnitude d)"
  by (auto simp add: holds_field_def get_bit_insertData)

lemma holds_field_insertData_other:
  "holds_field buf off len m \<Longrightarrow> off + len \<le> p \<or> p + n \<le> off \<Longrightarrow>
   holds_field (insertData buf d p n) off len m"
  by (auto simp add: holds_field_def get_bit_insertData)

lemma holds_field_encodeBitSection_same:
  "off + len \<le> 8 * length buf \<Longrightarrow>
   holds_field (encodeBitSection buf d off len) off len (magnitude d)"
  by (auto simp add: holds_field_def get_bit_encodeBitSection)

lemma holds_field_encodeBitSection_other:
  "holds_field buf off len m \<Longrightarrow> off + len \<le> p \<or> p + n \<le> off \<Longrightarrow>
   holds_field (encodeBitSection buf d p n) off len m"
  by (auto simp add: holds_field_def get_bit_encodeBitSection)

lemma get_bit_prefix:
  "j < 8 * n \<Longrightarrow> n \<le> length buf \<Longrightarrow> get_bit (take n buf @ rest) j = get_bit buf j"
  by (auto simp add: get_bit_def nth_append)

lemma get_bit_append_left:
  "j < 8 * length buf \<Longrightarrow> get_bit (buf @ rest) j = get_bit buf j"
  by (auto simp add: get_bit_def nth_append)

lemma holds_field_prefix:
  "holds_field buf off len m \<Longrightarrow> off + len \<le> 8 * n \<Longrightarrow> n \<le> length buf \<Longrightarrow>
   holds_field (take n buf @ rest) off len m"
  by (auto simp add: holds_field_def get_bit_prefix)

lemma holds_field_append_left:
  "holds_field buf off len m \<Longrightarrow> off + len \<le> 8 * length buf \<Longrightarrow>
   holds_field (buf @ rest) off len m"
  by (auto simp add: holds_field_def get_bit_append_left)

lemma extractBits_eq: "extractBits packet offset len = extractDataBits packet offset len"
  by (simp add: extractBits_def extractDataBits_def)

subsection \<open>ASCII file names\<close>

lemma ascii_not_surrogate: "c < 0x80 \<Longrightarrow> \<not> is_high c \<and> \<not> is_low c"
  by (auto simp add: is_high_def is_low_def word_le_nat_alt word_less_nat_alt)

lemma ascii_unat: "(c::16 word) < 0x80 \<Longrightarrow> unat c < 128"
  by (simp add: word_less_nat_alt)


lemma string_iter_ascii: "is_ascii s \<Longrightarrow> string_iter s = map (\<lambda>c. [c]) s"
  by (induction s rule: string_iter.induct)
     (auto simp add: is_ascii_def ascii_not_surrogate)

lemma code_points_ascii: "is_ascii s \<Longrightarrow> code_points s = map unat s"
  by (induction s rule: code_points.induct)
     (auto simp add: is_ascii_def ascii_not_surrogate)

lemma code_bytes_small: "code < 256 \<Longrightarrow> code_bytes code = [code]"
proof -
  assume a: "code < 256"
  then have "drop_bit 8 code = 0" by (simp add: drop_bit_eq_div)
  moreover have "code AND 0xFF = code"
  proof -
    have "code AND mask 8 = code"
      using a by (simp add: take_bit_eq_mask [symmetric] take_bit_nat_eq_self)
    then show ?thesis by (simp add: mask_eq_exp_minus_1)
  qed
  ultimately show ?thesis by (subst code_bytes.simps) simp
qed

lemma fold_append_concat:
  "fold (\<lambda>x r. r @ f x) xs acc = acc @ concat (map f xs)"
  by (induction xs arbitrary: acc) simp_all

lemma toByteArr_concat:
  "toByteArr s = concat (map (\<lambda>char. rev (code_bytes (charCodeAt0 char))) (string_iter s))"
  by (simp add: toByteArr_def fold_append_concat)

lemma calculateNameLength_ascii: "is_ascii s \<Longrightarrow> calculateNameLength s = length s"
proof -
  assume a: "is_ascii s"
  have "list_all (\<lambda>c. c < 0x80) s \<Longrightarrow>
      concat (map (\<lambda>char. rev (code_bytes (charCodeAt0 char))) (map (\<lambda>c. [c]) s))
        = map unat s"
  proof (induction s)
    case Nil
    then show ?case by simp
  next
    case (Cons c s)
    then have "unat c < 256" using ascii_unat [of c] by simp
    then have "code_bytes (unat c) = [unat c]" by (rule code_bytes_small)
    then show ?case using Cons by (simp add: charCodeAt0_def)
  qed
  then show ?thesis
    using a by (simp add: calculateNameLength_def toByteArr_concat string_iter_ascii is_ascii_def)
qed

lemma utf8_bytes_ascii: "(c::16 word) < 0x80 \<Longrightarrow> utf8_bytes (unat c) = [ucast c]"
  using ascii_unat [of c] by (simp add: utf8_bytes_def)

lemma fit_chars_ascii:
  "is_ascii s \<Longrightarrow> length s \<le> room \<Longrightarrow>
   fit_chars (map (utf8_bytes \<circ> unat) s) room = map ucast s"
  by (induction s arbitrary: room) (auto simp add: is_ascii_def utf8_bytes_ascii)

lemma buffer_write_ascii:
  assumes "is_ascii s" and "length buf = offset + length s"
  shows "buffer_write buf s offset = take offset buf @ map ucast s"
proof -
  have "fit_chars (map utf8_bytes (code_points s)) (length buf - offset) = map ucast s"
    using assms by (simp add: code_points_ascii fit_chars_ascii)
  then show ?thesis using assms(2) by (simp add: buffer_write_def)
qed

lemma utf8_decode_ascii:
  "is_ascii s \<Longrightarrow>
   utf8_decode 0 0 0x80 0xBF (map unat (map ucast s :: buffer)) = map unat s"
proof (induction s)
  case Nil
  then show ?case by simp
next
  case (Cons c s)
  then have c: "unat c < 128" and s: "is_ascii s"
    by (simp_all add: is_ascii_def ascii_unat)
  have u: "unat (ucast c :: byte) = unat c"
    using c by (simp add: unsigned_ucast_eq take_bit_nat_eq_self)
  show ?case using c Cons.IH [OF s] by (simp add: u)
qed

lemma utf16_units_unat: "utf16_units (unat (c::16 word)) = [c]"
proof -
  have "unat c < 65536" using unsigned_less [of c, where 'a = nat] by simp
  then show ?thesis by (simp add: utf16_units_def)
qed

lemma buffer_toString_ascii:
  "is_ascii s \<Longrightarrow> buffer_toString (map ucast s) = s"
proof -
  assume "is_ascii s"
  then have "buffer_toString (map ucast s) = concat (map utf16_units (map unat s))"
    by (simp only: buffer_toString_def utf8_decode_ascii)
  also have "\<dots> = s"
    by (induction s) (simp_all add: utf16_units_unat)
  finally show ?thesis .
qed

lemma utf8_encode_ascii: "is_ascii s \<Longrightarrow> utf8_encode s = map ucast s"
proof -
  assume a: "is_ascii s"
  have "list_all (\<lambda>c. c < 0x80) s \<Longrightarrow> concat (map utf8_bytes (map unat s)) = map ucast s"
    by (induction s) (simp_all add: utf8_bytes_ascii)
  then show ?thesis using a by (simp add: utf8_encode_def code_points_ascii is_ascii_def)
qed

subsection \<open>The request packet\<close>

lemma slice_from_12:
  "0 \<le> n \<Longrightarrow> slice buf 12 (12 + n) = take (nat n) (drop 12 buf)"
proof (cases "12 \<le> length buf")
  case True
  assume n: "0 \<le> n"
  have "take (nat (min (12 + n) (int (length buf)) - 12)) (drop 12 buf) = take (nat n) (drop 12 buf)"
  proof (cases "12 + n \<le> int (length buf)")
    case True
    then show ?thesis by (simp add: min_def)
  next
    case False
    then have "length (drop 12 buf) \<le> nat n" by simp
    then show ?thesis using False by (simp add: min_def)
  qed
  then show ?thesis using True n by (simp add: slice_def Let_def min_def)
next
  case False
  then show ?thesis by (simp add: slice_def Let_def min_def)
qed

lemma slice_rest: "slice buf 12 (int (length buf)) = drop 12 buf"
  by (simp add: slice_def Let_def min_def)

lemma slice_header: "12 \<le> length buf \<Longrightarrow> slice buf 0 12 = take 12 buf"
  by (simp add: slice_def Let_def min_def)

lemma magnitude_nonneg: "0 \<le> d \<Longrightarrow> magnitude d = nat d"
  by (simp add: magnitude_def)

lemma magnitude_int [simp]: "magnitude (int n) = n"
  by (simp add: magnitude_def)

lemma length_alloc [simp]: "length (alloc n) = n"
  by (simp add: alloc_def)

lemma getPacket_ascii:
  fixes v a t i :: int and name :: jsstring
  assumes "is_ascii name"
  defines "P \<equiv> getPacket (initialize v a t i name)"
  shows "length P = 12 + length name"
    and "drop 12 P = map ucast name"
    and "holds_field P 0 4 (magnitude v)"
    and "holds_field P 30 2 (magnitude a)"
    and "holds_field P 32 32 (magnitude t)"
    and "holds_field P 64 4 (magnitude i)"
    and "holds_field P 68 28 (length name)"
proof -
  define b1 where "b1 = insertData (alloc (12 + length name)) v 0 4"
  define b2 where "b2 = insertData b1 a 30 2"
  define b3 where "b3 = insertData b2 t 32 32"
  define b4 where "b4 = insertData b3 i 64 4"
  define b5 where "b5 = insertData b4 (int (length name)) 68 28"
  have len: "length b1 = 12 + length name" "length b2 = 12 + length name"
    "length b3 = 12 + length name" "length b4 = 12 + length name"
    "length b5 = 12 + length name"
    by (simp_all add: b1_def b2_def b3_def b4_def b5_def)
  have nl: "calculateNameLength name = length name"
    using assms(1) by (rule calculateNameLength_ascii)
  have P: "P = take 12 b5 @ map ucast name"
    unfolding P_def getPacket_def initialize_def Let_def
    using buffer_write_ascii [OF assms(1), of b5 12] len
    by (simp add: nl b1_def b2_def b3_def b4_def b5_def)
  show "length P = 12 + length name" using len by (simp add: P)
  show "drop 12 P = map ucast name" using len by (simp add: P)
  have f1: "holds_field b5 0 4 (magnitude v)"
    unfolding b5_def b4_def b3_def b2_def
    by (intro holds_field_insertData_other) (simp_all add: b1_def holds_field_insertData_same)
  have f2: "holds_field b5 30 2 (magnitude a)"
    unfolding b5_def b4_def b3_def
    by (intro holds_field_insertData_other) (simp_all add: b2_def len holds_field_insertData_same)
  have f3: "holds_field b5 32 32 (magnitude t)"
    unfolding b5_def b4_def
    by (intro holds_field_insertData_other) (simp_all add: b3_def len holds_field_insertData_same)
  have f4: "holds_field b5 64 4 (magnitude i)"
    unfolding b5_def
    by (intro holds_field_insertData_other) (simp_all add: b4_def len holds_field_insertData_same)
  have f5: "holds_field b5 68 28 (length name)"
    using holds_field_insertData_same [of 68 28 b4 "int (length name)"] len
    by (simp add: b5_def)
  show "holds_field P 0 4 (magnitude v)"
    unfolding P using f1 len by (intro holds_field_prefix) simp_all
  show "holds_field P 30 2 (magnitude a)"
    unfolding P using f2 len by (intro holds_field_prefix) simp_all
  show "holds_field P 32 32 (magnitude t)"
    unfolding P using f3 len by (intro holds_field_prefix) simp_all
  show "holds_field P 64 4 (magnitude i)"
    unfolding P using f4 len by (intro holds_field_prefix) simp_all
  show "holds_field P 68 28 (length name)"
    unfolding P using f5 len by (intro holds_field_prefix) simp_all
qed

lemma request_roundtrip:
  assumes "0 \<le> v" "v < 16" "0 \<le> t" "t < 2 ^ 31" "0 \<le> i" "i < 16"
    and "is_ascii name" "length name < 2 ^ 28"
  shows "extractDetails (getPacket (initialize v a t i name)) =
         \<lparr>version = v, timestamp = t, imageType = i, fileName = name\<rparr>"
proof -
  let ?P = "getPacket (initialize v a t i name)"
  note g = getPacket_ascii [OF assms(7), of v a t i]
  have "nat v < 2 ^ 4" using assms(1,2) by (simp add: nat_less_iff)
  then have ev: "extractDataBits ?P 0 4 = v"
    using extract_of_field_small [OF g(3)] assms(1) by (simp add: magnitude_nonneg)
  have "nat i < 2 ^ 4" using assms(5,6) by (simp add: nat_less_iff)
  then have ei: "extractDataBits ?P 64 4 = i"
    using extract_of_field_small [OF g(6)] assms(5) by (simp add: magnitude_nonneg)
  have "nat t < 2 ^ 31" using assms(3,4) by (simp add: nat_less_iff)
  then have "nat t < 2 ^ 32" by simp
  then have "extractDataBits ?P 32 32 = sint (word_of_nat (nat t) :: 32 word)"
    using extract_of_field [OF g(5)] assms(3) by (simp add: magnitude_nonneg)
  then have et: "extractDataBits ?P 32 32 = t"
    using sint_small [OF \<open>nat t < 2 ^ 31\<close>] assms(3) by simp
  have en: "extractDataBits ?P 68 28 = int (length name)"
    using extract_of_field_small [OF g(7)] assms(8) by simp
  have "getFileName ?P = buffer_toString (take (length name) (drop 12 ?P))"
    by (simp add: getFileName_def Let_def en slice_from_12)
  then have ef: "getFileName ?P = name"
    using assms(7) by (simp add: g(2) buffer_toString_ascii)
  show ?thesis by (simp add: extractDetails_def ev et ei ef)
qed

subsection \<open>Decoding a request, handling a response\<close>

lemma extractDataBits_nonneg: "len \<le> 31 \<Longrightarrow> 0 \<le> extractDataBits packet offset len"
proof -
  assume a: "len \<le> 31"
  let ?w = "fold (extract_step packet offset) [0..<len] (0 :: 32 word)"
  have "\<not> bit ?w 31" using a by (simp add: extract_fold_bit)
  then have "\<not> sint ?w < 0" using bit_last_iff [of ?w] by simp
  then show ?thesis by (simp add: extractDataBits_fold)
qed

lemma getFileName_slice:
  "getFileName data = buffer_toString (take (nat (extractDataBits data 68 28)) (drop 12 data))"
proof -
  have "0 \<le> extractDataBits data 68 28" by (rule extractDataBits_nonneg) simp
  then show ?thesis by (simp add: getFileName_def Let_def slice_from_12)
qed

lemma handleResponse_events:
  "snd (handleResponse imageName data) =
     [WriteFile imageName (drop 12 data), OpenViewer imageName, EndConnection]"
  by (simp add: handleResponse_def Let_def saveImage_def slice_rest)

lemma is_ascii_cat: "is_ascii (str ''cat'')"
  by (simp add: is_ascii_def str_def)

lemma getPacket_action_bits:
  assumes "is_ascii name"
  shows "get_bit (getPacket (initialize v a t i name)) 30 = bit (magnitude a) 1"
    and "get_bit (getPacket (initialize v a t i name)) 31 = bit (magnitude a) 0"
proof -
  have f: "holds_field (getPacket (initialize v a t i name)) 30 2 (magnitude a)"
    using assms by (rule getPacket_ascii)
  show "get_bit (getPacket (initialize v a t i name)) 30 = bit (magnitude a) 1"
    using f [unfolded holds_field_def, rule_format, of 1] by simp
  show "get_bit (getPacket (initialize v a t i name)) 31 = bit (magnitude a) 0"
    using f [unfolded holds_field_def, rule_format, of 0] by simp
qed

subsection \<open>The response header and the server\<close>

lemma assemblePacket_fields:
  fixes s v ty t sz :: int
  defines "H \<equiv> assemblePacket (configure s v ty t sz)"
  shows "length H = 12"
    and "holds_field H 0 4 (magnitude v)"
    and "holds_field H 4 2 (magnitude ty)"
    and "holds_field H 6 26 (magnitude s)"
    and "holds_field H 32 32 (magnitude t)"
    and "holds_field H 64 32 (magnitude sz)"
proof -
  define h1 where "h1 = encodeBitSection (alloc 12) v 0 4"
  define h2 where "h2 = encodeBitSection h1 ty 4 2"
  define h3 where "h3 = encodeBitSection h2 s 6 26"
  define h4 where "h4 = encodeBitSection h3 t 32 32"
  have H: "H = encodeBitSection h4 sz 64 32"
    by (simp add: H_def assemblePacket_def configure_def Let_def h1_def h2_def h3_def h4_def)
  have len: "length h1 = 12" "length h2 = 12" "length h3 = 12" "length h4 = 12"
    by (simp_all add: h1_def h2_def h3_def h4_def)
  show "length H = 12" by (simp add: H len)
  show "holds_field H 0 4 (magnitude v)"
    unfolding H h4_def h3_def h2_def
    by (intro holds_field_encodeBitSection_other)
       (simp_all add: h1_def holds_field_encodeBitSection_same)
  show "holds_field H 4 2 (magnitude ty)"
    unfolding H h4_def h3_def
    by (intro holds_field_encodeBitSection_other)
       (simp_all add: h2_def len holds_field_encodeBitSection_same)
  show "holds_field H 6 26 (magnitude s)"
    unfolding H h4_def
    by (intro holds_field_encodeBitSection_other)
       (simp_all add: h3_def len holds_field_encodeBitSection_same)
  show "holds_field H 32 32 (magnitude t)"
    unfolding H
    by (intro holds_field_encodeBitSection_other)
       (simp_all add: h4_def len holds_field_encodeBitSection_same)
  show "holds_field H 64 32 (magnitude sz)"
    unfolding H by (simp add: len holds_field_encodeBitSection_same)
qed

lemma preparePacket_None:
  "preparePacket None v t ty st =
     (assemblePacket (configure (fst (getSequenceNumber st)) v ty t 0),
      snd (getSequenceNumber st))"
  by (simp add: preparePacket_def Let_def split: prod.splits)

lemma preparePacket_Some:
  "preparePacket (Some bytes) v t ty st =
     (assemblePacket (configure (fst (getSequenceNumber st)) v ty t (int (length bytes))) @ bytes,
      snd (getSequenceNumber st))"
  by (simp add: preparePacket_def Let_def split: prod.splits)

lemma handleData_absent:
  assumes "\<not> existsSync fs (constructFilePath (fileName (extractDetails data))
                              (imageType (extractDetails data)))"
  shows "handleData fs data st =
     Inr ([Write (assemblePacket (configure (fst (getSequenceNumber st))
                     (version (extractDetails data)) 2 (timestamp (extractDetails data)) 0)),
           End],
          snd (getSequenceNumber st))"
  using assms
  by (simp add: handleData_def Let_def sendErrorResponse_def preparePacket_None)



lemma type_field:
  assumes "0 \<le> ty" "ty < 4"
  shows "extractDataBits (assemblePacket (configure s v ty t sz) @ rest) 4 2 = ty"
proof -
  have "holds_field (assemblePacket (configure s v ty t sz) @ rest) 4 2 (magnitude ty)"
    by (rule holds_field_append_left) (simp_all add: assemblePacket_fields)
  moreover have "magnitude ty < 2 ^ 2"
  proof -
    have "nat ty < 4" using assms by linarith
    then show ?thesis using assms by (simp add: magnitude_def)
  qed
  ultimately have "extractDataBits (assemblePacket (configure s v ty t sz) @ rest) 4 2
      = int (magnitude ty)"
    by (rule extract_of_field_small) simp
  then show ?thesis using assms by (simp add: magnitude_def)
qed

lemma size_field_zero:
  "extractDataBits (assemblePacket (configure s v ty t 0)) 64 32 = 0"
proof -
  have "holds_field (assemblePacket (configure s v ty t 0)) 64 32 (magnitude 0)"
    by (rule assemblePacket_fields)
  then have "extractDataBits (assemblePacket (configure s v ty t 0)) 64 32
      = sint (word_of_nat (magnitude 0) :: 32 word)"
    by (rule extract_of_field) (simp add: magnitude_def)
  then show ?thesis by (simp add: magnitude_def)
qed

lemma handleResponse_fst:
  "fst (handleResponse imageName data) = processHeader (slice data 0 12)"
  by (simp add: handleResponse_def Let_def)



lemma getSequenceNumber_eval:
  "valid_seed s \<Longrightarrow> getSequenceNumber \<lparr>sequenceNum = s, timeMark = t\<rparr>
     = (s mod 999 + 1, \<lparr>sequenceNum = s mod 999 + 1, timeMark = t\<rparr>)"
  by (simp add: getSequenceNumber_def incrementSequence_def Let_def js_rem_nonneg valid_seed_def)



subsection \<open>The time field of the response\<close>

lemma sint_large:
  assumes "2147483648 \<le> m" "m < 4294967296"
  shows "sint (word_of_nat m :: 32 word) = int m - 4294967296"
proof -
  have "sint (word_of_nat m :: 32 word) = sint (word_of_int (int m) :: 32 word)"
    by simp
  also have "\<dots> = (int m + 2147483648) mod 4294967296 - 2147483648"
    by (simp only: int_word_sint) simp
  also have "(int m + 2147483648) mod 4294967296 = int m - 2147483648"
  proof -
    have "int m + 2147483648 = (int m - 2147483648) + 4294967296" by simp
    then have "(int m + 2147483648) mod 4294967296
        = ((int m - 2147483648) + 4294967296) mod 4294967296"
      by (rule arg_cong)
    also have "\<dots> = (int m - 2147483648) mod 4294967296"
      by (rule mod_add_self2)
    also have "\<dots> = int m - 2147483648"
      by (rule mod_pos_pos_trivial) (use assms in linarith)+
    finally show ?thesis .
  qed
  finally show ?thesis by simp
qed

lemma time_field_of_response:
  assumes "holds_field data 32 32 m" and "m < 4294967296"
  shows "holds_field (assemblePacket (configure s v ty (extractDataBits data 32 32) sz)) 32 32
           (if m < 2147483648 then m else 4294967296 - m)"
proof -
  have e: "extractDataBits data 32 32 = sint (word_of_nat m :: 32 word)"
    using assms by (intro extract_of_field) simp_all
  have f: "holds_field (assemblePacket (configure s v ty (extractDataBits data 32 32) sz)) 32 32
             (magnitude (extractDataBits data 32 32))"
    by (rule assemblePacket_fields)
  show ?thesis
  proof (cases "m < 2147483648")
    case True
    then have "sint (word_of_nat m :: 32 word) = int m"
      using sint_small [of m] by simp
    then show ?thesis using f True by (simp add: e)
  next
    case False
    then have "sint (word_of_nat m :: 32 word) = int m - 4294967296"
      using assms(2) by (intro sint_large) simp_all
    moreover have "magnitude (int m - 4294967296) = 4294967296 - m"
      using assms(2) by (simp add: magnitude_def)
    ultimately show ?thesis using f False by (simp add: e)
  qed
qed

section \<open>The properties of the specification\<close>

text \<open>
  C1 (as stated, refuted).  Two requests that differ only in \<open>actionType\<close>
  (0 and 3) are different packets, and the server's \<open>extractDetails\<close> returns
  the same record for both: it has the fields \<open>version\<close>, \<open>timestamp\<close>,
  \<open>imageType\<close> and \<open>fileName\<close> and no action type, so decoding does not give
  the tuple back.
\<close>

theorem C1_actionType_not_decoded:
  "getPacket (initialize 7 0 5 1 (str ''cat''))
     = [112, 0, 0, 0, 0, 0, 0, 5, 16, 0, 0, 3, 99, 97, 116]
   \<and> getPacket (initialize 7 3 5 1 (str ''cat''))
     = [112, 0, 0, 3, 0, 0, 0, 5, 16, 0, 0, 3, 99, 97, 116]
   \<and> extractDetails [112, 0, 0, 0, 0, 0, 0, 5, 16, 0, 0, 3, 99, 97, 116]
     = \<lparr>version = 7, timestamp = 5, imageType = 1, fileName = str ''cat''\<rparr>
   \<and> extractDetails [112, 0, 0, 3, 0, 0, 0, 5, 16, 0, 0, 3, 99, 97, 116]
     = \<lparr>version = 7, timestamp = 5, imageType = 1, fileName = str ''cat''\<rparr>"
proof -
  have p0: "getPacket (initialize 7 0 5 1 (str ''cat''))
     = [112, 0, 0, 0, 0, 0, 0, 5, 16, 0, 0, 3, 99, 97, 116]"
    by code_simp
  have p3: "getPacket (initialize 7 3 5 1 (str ''cat''))
     = [112, 0, 0, 3, 0, 0, 0, 5, 16, 0, 0, 3, 99, 97, 116]"
    by code_simp
  have r: "extractDetails (getPacket (initialize 7 a 5 1 (str ''cat'')))
     = \<lparr>version = 7, timestamp = 5, imageType = 1, fileName = str ''cat''\<rparr>" for a
    by (rule request_roundtrip) (simp_all add: is_ascii_cat, simp add: str_def)
  show ?thesis using p0 p3 r [of 0] r [of 3] by simp
qed

text \<open>
  C1 (amended).  For every tuple with \<open>version\<close> and \<open>imgType\<close> in 0..15,
  \<open>actionType\<close> in 0..3, \<open>timeMark\<close> in \<open>0..2^31 - 1\<close> and a file name of
  fewer than \<open>2^28\<close> characters, all of them ASCII, \<open>extractDetails\<close> applied to
  the packet of \<open>getPacket\<close> returns the same version, timeMark, imgType and
  fileName.  The action type is written into bits 30 and 31 of the packet and
  is not part of what the server decodes.
\<close>

theorem C1_request_roundtrip:
  assumes "0 \<le> v" "v < 16" "0 \<le> a" "a < 4" "0 \<le> t" "t < 2 ^ 31" "0 \<le> i" "i < 16"
    and "is_ascii name" "length name < 2 ^ 28"
  shows "extractDetails (getPacket (initialize v a t i name)) =
           \<lparr>version = v, timestamp = t, imageType = i, fileName = name\<rparr>
       \<and> get_bit (getPacket (initialize v a t i name)) 30 = bit (nat a) 1
       \<and> get_bit (getPacket (initialize v a t i name)) 31 = bit (nat a) 0"
  using assms request_roundtrip [of v t i name a] getPacket_action_bits [of name v a t i]
  by (simp add: magnitude_nonneg)

theorem C1_request_roundtrip_witness:
  "is_ascii (str ''cat'') \<and> length (str ''cat'') < 2 ^ 28
   \<and> extractDetails (getPacket (initialize 7 3 5 1 (str ''cat''))) =
       \<lparr>version = 7, timestamp = 5, imageType = 1, fileName = str ''cat''\<rparr>
   \<and> get_bit (getPacket (initialize 7 3 5 1 (str ''cat''))) 30 = bit (nat 3) 1"
proof -
  have l: "length (str ''cat'') < 2 ^ 28" by (simp add: str_def)
  from C1_request_roundtrip [of 7 3 5 1 "str ''cat''", OF _ _ _ _ _ _ _ _ is_ascii_cat l]
  show ?thesis using is_ascii_cat l by simp
qed

text \<open>
  C2 (code evaluated at the failing input).  The request carries the
  timeMark \<open>2^32 - 1\<close>, the bytes FF FF FF FF.  The server reads the field as
  the signed number -1 and \<open>encodeBitSection\<close> writes the digits of \<open>"-1"\<close>:
  the time field of the response is 00 00 00 01.  (By \<open>time_field_of_response\<close>
  the field is echoed for every timeMark below \<open>2^31\<close>, and a timeMark \<open>m\<close>
  from \<open>2^31\<close> on comes back as \<open>2^32 - m\<close>.)
\<close>

theorem C2_timestamp_msb_not_echoed:
  "extractDataBits [112, 0, 0, 0, 255, 255, 255, 255, 16, 0, 0, 3, 99, 97, 116] 32 32 = - 1
   \<and> toString2 (- 1) = ''-1''
   \<and> handleData (\<lambda>p. None) [112, 0, 0, 0, 255, 255, 255, 255, 16, 0, 0, 3, 99, 97, 116]
        (initialize_singleton 10)
     = Inr ([Write [120, 0, 0, 11, 0, 0, 0, 1, 0, 0, 0, 0], End],
            \<lparr>sequenceNum = 11, timeMark = 10\<rparr>)"
proof -
  let ?req = "[112, 0, 0, 0, 255, 255, 255, 255, 16, 0, 0, 3, 99, 97, 116] :: buffer"
  have v: "extractDataBits ?req 0 4 = 7" by code_simp
  have t: "extractDataBits ?req 32 32 = - 1" by code_simp
  have m: "toString2 (- 1) = ''-1''" by code_simp
  have a: "\<not> existsSync (\<lambda>p. None) p" for p :: jsstring
    by (simp add: existsSync_def)
  have s: "getSequenceNumber (initialize_singleton 10) = (11, \<lparr>sequenceNum = 11, timeMark = 10\<rparr>)"
    using getSequenceNumber_eval [of 10 10]
    by (simp add: initialize_singleton_def valid_seed_def)
  have h: "assemblePacket (configure 11 7 2 (- 1) 0) = [120, 0, 0, 11, 0, 0, 0, 1, 0, 0, 0, 0]"
    by code_simp
  have "handleData (\<lambda>p. None) ?req (initialize_singleton 10)
     = Inr ([Write [120, 0, 0, 11, 0, 0, 0, 1, 0, 0, 0, 0], End],
            \<lparr>sequenceNum = 11, timeMark = 10\<rparr>)"
    by (simp add: handleData_absent [OF a] s extractDetails_def v t h)
  then show ?thesis using t m by simp
qed

text \<open>
  C3 (code evaluated at the failing input).  In JavaScript \<open>1 << 32\<close> is \<open>1\<close>,
  because the shift count is taken modulo 32, so the mask \<open>(1 << 32) - 1\<close> is
  \<open>0\<close>: a tick of \<open>incrementTimestamp\<close> from the counter value 5 leaves the
  counter at 0, not at 6.
\<close>

theorem C3_tick_from_5_gives_0:
  "timeMark (incrementTimestamp \<lparr>sequenceNum = 5, timeMark = 5\<rparr>) = 0
   \<and> js_shl 1 32 - 1 = 0"
  by (simp add: incrementTimestamp_zero js_shl_1_32)

text \<open>
  C4 (as stated, refuted).  The client receives the header-only Not Found
  response of the server for \<open>missing.gif\<close>: the type decodes to 2, and the
  client writes the (empty) file \<open>missing.gif\<close> and opens the viewer on it.
\<close>

theorem C4_not_found_saved_and_opened:
  "handleResponse (str ''missing.gif'') [120, 0, 0, 11, 0, 0, 0, 5, 0, 0, 0, 0]
     = (\<lparr>hdr_version = 7, hdr_type = 2, hdr_sequence = 11, hdr_timestamp = 5\<rparr>,
        [WriteFile (str ''missing.gif'') [], OpenViewer (str ''missing.gif''), EndConnection])"
proof -
  let ?h = "[120, 0, 0, 11, 0, 0, 0, 5, 0, 0, 0, 0] :: buffer"
  have v: "extractBits ?h 0 4 = 7" by code_simp
  have t: "extractBits ?h 4 2 = 2" by code_simp
  have s: "extractBits ?h 6 26 = 11" by code_simp
  have m: "extractBits ?h 32 32 = 5" by code_simp
  have "fst (handleResponse (str ''missing.gif'') ?h)
      = \<lparr>hdr_version = 7, hdr_type = 2, hdr_sequence = 11, hdr_timestamp = 5\<rparr>"
    by (simp add: handleResponse_fst slice_header processHeader_def v t s m)
  moreover have "snd (handleResponse (str ''missing.gif'') ?h)
      = [WriteFile (str ''missing.gif'') [], OpenViewer (str ''missing.gif''), EndConnection]"
    by (simp add: handleResponse_events)
  ultimately show ?thesis by (simp add: prod_eq_iff)
qed

text \<open>
  C4 (amended).  The client has no branch on the type field and no failure
  signal.  For every received response, whatever its type field decodes to,
  it writes the bytes that follow the 12-byte header to the local file, opens
  the viewer on that file and ends the connection.  In particular, for every
  Not Found response that the server builds (\<open>preparePacket\<close> with no image
  data and type 2) the client decodes the type 2 and still writes the file,
  which is empty, and opens the viewer.
\<close>

theorem C4_response_always_saved:
  "snd (handleResponse imageName data) =
     [WriteFile imageName (drop 12 data), OpenViewer imageName, EndConnection]
   \<and> hdr_type (fst (handleResponse imageName (fst (preparePacket None v t 2 st)))) = 2
   \<and> snd (handleResponse imageName (fst (preparePacket None v t 2 st))) =
     [WriteFile imageName [], OpenViewer imageName, EndConnection]"
proof -
  let ?H = "assemblePacket (configure (fst (getSequenceNumber st)) v 2 t 0)"
  have p: "fst (preparePacket None v t 2 st) = ?H"
    by (simp add: preparePacket_None)
  have l: "length ?H = 12" by (rule assemblePacket_fields)
  have "extractDataBits ?H 4 2 = 2"
    using type_field [of 2 _ _ _ 0 "[]"] by simp
  then have ty: "hdr_type (fst (handleResponse imageName ?H)) = 2"
    using l by (simp add: handleResponse_fst slice_header processHeader_def extractBits_eq)
  have ev: "snd (handleResponse imageName ?H) =
     [WriteFile imageName [], OpenViewer imageName, EndConnection]"
    using l by (simp add: handleResponse_events)
  show ?thesis
    unfolding p using ty ev by (simp add: handleResponse_events)
qed

text \<open>
  C5 (as stated, refuted).  A 14-byte request whose header declares a name of
  5 bytes is decoded without any error: the file name returned is the 2 bytes
  that are there.  A response whose header declares 5 payload bytes and that
  carries 2 is saved as it is.
\<close>

theorem C5_short_buffers_are_decoded:
  "extractDataBits [112, 0, 0, 0, 0, 0, 0, 5, 16, 0, 0, 5, 99, 97] 68 28 = 5
   \<and> extractDetails [112, 0, 0, 0, 0, 0, 0, 5, 16, 0, 0, 5, 99, 97]
       = \<lparr>version = 7, timestamp = 5, imageType = 1, fileName = str ''ca''\<rparr>
   \<and> extractBits [116, 0, 0, 1, 0, 0, 0, 5, 0, 0, 0, 5, 1, 2] 64 32 = 5
   \<and> snd (handleResponse (str ''a.png'') [116, 0, 0, 1, 0, 0, 0, 5, 0, 0, 0, 5, 1, 2])
       = [WriteFile (str ''a.png'') [1, 2], OpenViewer (str ''a.png''), EndConnection]"
proof -
  have a: "extractDataBits [112, 0, 0, 0, 0, 0, 0, 5, 16, 0, 0, 5, 99, 97] 68 28 = 5"
    by code_simp
  have v: "extractDataBits [112, 0, 0, 0, 0, 0, 0, 5, 16, 0, 0, 5, 99, 97] 0 4 = 7"
    by code_simp
  have t: "extractDataBits [112, 0, 0, 0, 0, 0, 0, 5, 16, 0, 0, 5, 99, 97] 32 32 = 5"
    by code_simp
  have i: "extractDataBits [112, 0, 0, 0, 0, 0, 0, 5, 16, 0, 0, 5, 99, 97] 64 4 = 1"
    by code_simp
  have s: "buffer_toString [99, 97] = str ''ca''"
    using buffer_toString_ascii [of "str ''ca''"] by (simp add: is_ascii_def str_def)
  have b: "extractDetails [112, 0, 0, 0, 0, 0, 0, 5, 16, 0, 0, 5, 99, 97]
       = \<lparr>version = 7, timestamp = 5, imageType = 1, fileName = str ''ca''\<rparr>"
    by (simp add: extractDetails_def getFileName_slice a v t i s)
  have c: "extractBits [116, 0, 0, 1, 0, 0, 0, 5, 0, 0, 0, 5, 1, 2] 64 32 = 5"
    by code_simp
  have d: "snd (handleResponse (str ''a.png'') [116, 0, 0, 1, 0, 0, 0, 5, 0, 0, 0, 5, 1, 2])
       = [WriteFile (str ''a.png'') [1, 2], OpenViewer (str ''a.png''), EndConnection]"
    by (simp add: handleResponse_events)
  show ?thesis using a b c d by simp
qed

text \<open>
  C5 (amended).  Neither decoder has a length check or an error result.  For
  a request shorter than 12 bytes plus the \<open>nameLength\<close> of its header,
  \<open>extractDetails\<close> returns the four fields, the file name being decoded from
  the bytes that follow the header up to the end of the buffer.  For every
  response, whatever its \<open>size\<close> field, the client saves all the bytes that
  follow the 12-byte header.
\<close>

theorem C5_short_request_decoded:
  assumes "length req < 12 + nat (extractDataBits req 68 28)"
  shows "extractDetails req =
           \<lparr>version = extractDataBits req 0 4, timestamp = extractDataBits req 32 32,
            imageType = extractDataBits req 64 4,
            fileName = buffer_toString (drop 12 req)\<rparr>
       \<and> snd (handleResponse imageName resp) =
           [WriteFile imageName (drop 12 resp), OpenViewer imageName, EndConnection]"
proof -
  have "length (drop 12 req) \<le> nat (extractDataBits req 68 28)"
    using assms by simp
  then have "getFileName req = buffer_toString (drop 12 req)"
    by (simp add: getFileName_slice)
  then show ?thesis
    by (simp add: extractDetails_def handleResponse_events)
qed

theorem C5_short_request_decoded_witness:
  "length [112, 0, 0, 0, 0, 0, 0, 5, 16, 0, 0, 5, 99, 97 :: byte]
     < 12 + nat (extractDataBits [112, 0, 0, 0, 0, 0, 0, 5, 16, 0, 0, 5, 99, 97] 68 28)
   \<and> fileName (extractDetails [112, 0, 0, 0, 0, 0, 0, 5, 16, 0, 0, 5, 99, 97])
       = buffer_toString (drop 12 [112, 0, 0, 0, 0, 0, 0, 5, 16, 0, 0, 5, 99, 97])"
proof -
  have e: "extractDataBits [112, 0, 0, 0, 0, 0, 0, 5, 16, 0, 0, 5, 99, 97] 68 28 = 5"
    by code_simp
  have h: "length [112, 0, 0, 0, 0, 0, 0, 5, 16, 0, 0, 5, 99, 97 :: byte]
     < 12 + nat (extractDataBits [112, 0, 0, 0, 0, 0, 0, 5, 16, 0, 0, 5, 99, 97] 68 28)"
    unfolding e by simp
  from C5_short_request_decoded [OF h] h show ?thesis by simp
qed

text \<open>
  C6 (as stated, refuted).  From the valid seed 1 the 1000th call of
  \<open>getSequenceNumber\<close> returns 2, not 1.
\<close>

theorem C6_seed_1_call_1000_returns_2:
  "sequence_calls 1000 (initialize_singleton 1) ! 999 = 2"
proof -
  have "valid_seed (sequenceNum (initialize_singleton 1))"
    by (simp add: initialize_singleton_def valid_seed_def)
  then have "sequence_calls 1000 (initialize_singleton 1) ! 999 =
      (sequenceNum (initialize_singleton 1) + int 999) mod 999 + 1"
    by (rule sequence_calls_nth) simp
  then show ?thesis by (simp add: initialize_singleton_def)
qed

text \<open>
  C6 (amended).  From every seed \<open>s\<close> in 1..999, call number \<open>i + 1\<close> of
  \<open>getSequenceNumber\<close> returns \<open>(s + i) mod 999 + 1\<close>: the first call returns
  the seed advanced by one, each later call returns the value of the call
  before it advanced by one, 999 being followed by 1, and the counter holds
  the value returned last.  So the counter is back at \<open>s\<close> after 999 calls
  and the 1000th call returns \<open>s mod 999 + 1\<close>, the value the first call
  returned (it is 1 exactly for the seed 999); and every call, at any
  position \<open>i\<close> of any run, returns a value in 1..999, never 0.
\<close>

theorem C6_sequence_cycle:
  assumes "valid_seed s"
  shows "sequenceNum (after_calls 999 (initialize_singleton s)) = s
       \<and> sequence_calls 1000 (initialize_singleton s) ! 999 = s mod 999 + 1
       \<and> sequence_calls 1000 (initialize_singleton s) ! 999
           = sequence_calls 1000 (initialize_singleton s) ! 0
       \<and> (\<forall>k i. i < k \<longrightarrow>
            1 \<le> sequence_calls k (initialize_singleton s) ! i
          \<and> sequence_calls k (initialize_singleton s) ! i \<le> 999
          \<and> sequence_calls k (initialize_singleton s) ! i \<noteq> 0)
       \<and> (\<forall>k i. i < k \<longrightarrow>
            sequence_calls k (initialize_singleton s) ! i = (s + int i) mod 999 + 1)
       \<and> (\<forall>k. 0 < k \<longrightarrow>
            sequence_calls k (initialize_singleton s) ! 0 = (if s = 999 then 1 else s + 1))
       \<and> (\<forall>k i. Suc i < k \<longrightarrow>
            sequence_calls k (initialize_singleton s) ! Suc i =
              (if sequence_calls k (initialize_singleton s) ! i = 999 then 1
               else sequence_calls k (initialize_singleton s) ! i + 1))
       \<and> (\<forall>k. 0 < k \<longrightarrow>
            sequenceNum (after_calls k (initialize_singleton s)) =
              sequence_calls k (initialize_singleton s) ! (k - 1))"
proof -
  let ?st = "initialize_singleton s"
  have v: "valid_seed (sequenceNum ?st)" and s: "sequenceNum ?st = s"
    using assms by (simp_all add: initialize_singleton_def)
  have m: "(s - 1 + 999) mod 999 = s - 1"
  proof -
    have "(s - 1 + 999) mod 999 = (s - 1) mod 999"
      by (rule mod_add_self2)
    also have "\<dots> = s - 1"
      using assms by (simp add: valid_seed_def)
    finally show ?thesis .
  qed
  have "sequenceNum (after_calls 999 ?st) = (s - 1 + int 999) mod 999 + 1"
    using after_calls_sequenceNum [OF v, of 999] by (simp only: s)
  also have "int 999 = 999"
    by simp
  also note m
  finally have a: "sequenceNum (after_calls 999 ?st) = s"
    by simp
  have n: "i < k \<Longrightarrow> sequence_calls k ?st ! i = (s + int i) mod 999 + 1" for i k
    using sequence_calls_nth [OF v, of i k] by (simp add: s)
  have b: "sequence_calls 1000 ?st ! 999 = s mod 999 + 1"
    using n [of 999 1000] by simp
  have c: "sequence_calls 1000 ?st ! 0 = s mod 999 + 1"
    using n [of 0 1000] by simp
  have d: "i < k \<Longrightarrow> 1 \<le> sequence_calls k ?st ! i \<and> sequence_calls k ?st ! i \<le> 999
      \<and> sequence_calls k ?st ! i \<noteq> 0" for i k
  proof -
    assume "i < k"
    then have e: "sequence_calls k ?st ! i = (s + int i) mod 999 + 1" by (rule n)
    have "0 \<le> (s + int i) mod 999" "(s + int i) mod 999 < 999" by simp_all
    then show ?thesis unfolding e by linarith
  qed
  have step: "(x mod 999 + 1) mod 999 + 1 = (if x mod 999 + 1 = 999 then 1 else x mod 999 + 1 + 1)"
    for x :: int
  proof (cases "x mod 999 + 1 = 999")
    case True
    then show ?thesis by simp
  next
    case False
    have "0 \<le> x mod 999" "x mod 999 < 999" by simp_all
    then have "(x mod 999 + 1) mod 999 = x mod 999 + 1"
      using False by (intro mod_pos_pos_trivial) linarith+
    then show ?thesis using False by simp
  qed
  have f: "0 < k \<Longrightarrow> sequence_calls k ?st ! 0 = (if s = 999 then 1 else s + 1)" for k
  proof -
    assume "0 < k"
    then have e: "sequence_calls k ?st ! 0 = s mod 999 + 1"
      using n [of 0 k] by simp
    show ?thesis
    proof (cases "s = 999")
      case True
      then show ?thesis using e by simp
    next
      case False
      then have "s mod 999 = s" using assms by (simp add: valid_seed_def)
      then show ?thesis using e False by simp
    qed
  qed
  have g: "Suc i < k \<Longrightarrow> sequence_calls k ?st ! Suc i =
      (if sequence_calls k ?st ! i = 999 then 1 else sequence_calls k ?st ! i + 1)" for i k
  proof -
    assume l: "Suc i < k"
    then have e0: "sequence_calls k ?st ! i = (s + int i) mod 999 + 1"
      by (intro n) simp
    have "sequence_calls k ?st ! Suc i = (s + int (Suc i)) mod 999 + 1"
      using l by (rule n)
    also have "(s + int (Suc i)) mod 999 = ((s + int i) mod 999 + 1) mod 999"
    proof -
      have "((s + int i) mod 999 + 1) mod 999 = (s + int i + 1) mod 999"
        by (rule mod_add_left_eq)
      moreover have "s + int (Suc i) = s + int i + 1"
        by simp
      ultimately show ?thesis by (simp only:)
    qed
    finally show ?thesis unfolding e0 using step [of "s + int i"] by simp
  qed
  have h: "0 < k \<Longrightarrow> sequenceNum (after_calls k ?st) = sequence_calls k ?st ! (k - 1)" for k
  proof -
    assume l: "0 < k"
    have "sequenceNum (after_calls k ?st) = (s - 1 + int k) mod 999 + 1"
      using after_calls_sequenceNum [OF v, of k] by (simp only: s)
    also have "s - 1 + int k = s + int (k - 1)"
      using l by (simp add: of_nat_diff)
    also have "(s + int (k - 1)) mod 999 + 1 = sequence_calls k ?st ! (k - 1)"
      using n [of "k - 1" k] l by simp
    finally show ?thesis .
  qed
  have d': "\<forall>k i. i < k \<longrightarrow>
            1 \<le> sequence_calls k ?st ! i
          \<and> sequence_calls k ?st ! i \<le> 999
          \<and> sequence_calls k ?st ! i \<noteq> 0"
    using d by blast
  have n': "\<forall>k i. i < k \<longrightarrow> sequence_calls k ?st ! i = (s + int i) mod 999 + 1"
    using n by blast
  have f': "\<forall>k. 0 < k \<longrightarrow> sequence_calls k ?st ! 0 = (if s = 999 then 1 else s + 1)"
    using f by blast
  have g': "\<forall>k i. Suc i < k \<longrightarrow> sequence_calls k ?st ! Suc i =
      (if sequence_calls k ?st ! i = 999 then 1 else sequence_calls k ?st ! i + 1)"
    using g by blast
  have h': "\<forall>k. 0 < k \<longrightarrow>
      sequenceNum (after_calls k ?st) = sequence_calls k ?st ! (k - 1)"
    using h by blast
  have bc: "sequence_calls 1000 ?st ! 999 = sequence_calls 1000 ?st ! 0"
    using b c by simp
  show ?thesis
    by (intro conjI) (rule a, rule b, rule bc, rule d', rule n', rule f', rule g', rule h')
qed

theorem C6_sequence_cycle_witness:
  "valid_seed 1
   \<and> sequenceNum (after_calls 999 (initialize_singleton 1)) = 1
   \<and> sequence_calls 1000 (initialize_singleton 1) ! 999 = 1 mod 999 + 1
   \<and> sequence_calls 3 (initialize_singleton 1) ! 0 = (if (1::int) = 999 then 1 else 1 + 1)
   \<and> sequence_calls 3 (initialize_singleton 1) ! Suc 0 =
       (if sequence_calls 3 (initialize_singleton 1) ! 0 = 999 then 1
        else sequence_calls 3 (initialize_singleton 1) ! 0 + 1)"
proof -
  have h: "valid_seed 1" by (simp add: valid_seed_def)
  note t = C6_sequence_cycle [OF h]
  have a: "sequenceNum (after_calls 999 (initialize_singleton 1)) = 1"
    and b: "sequence_calls 1000 (initialize_singleton 1) ! 999 = 1 mod 999 + 1"
    using t by blast+
  have f: "\<forall>k. 0 < k \<longrightarrow>
      sequence_calls k (initialize_singleton 1) ! 0 = (if (1::int) = 999 then 1 else 1 + 1)"
    using t by blast
  have g: "\<forall>k i. Suc i < k \<longrightarrow> sequence_calls k (initialize_singleton 1) ! Suc i =
      (if sequence_calls k (initialize_singleton 1) ! i = 999 then 1
       else sequence_calls k (initialize_singleton 1) ! i + 1)"
    using t by blast
  have f3: "sequence_calls 3 (initialize_singleton 1) ! 0 = (if (1::int) = 999 then 1 else 1 + 1)"
    using f [rule_format, of 3] by simp
  have g3: "sequence_calls 3 (initialize_singleton 1) ! Suc 0 =
       (if sequence_calls 3 (initialize_singleton 1) ! 0 = 999 then 1
        else sequence_calls 3 (initialize_singleton 1) ! 0 + 1)"
    using g [rule_format, of 0 3] by simp
  show ?thesis
    by (intro conjI) (rule h, rule a, rule b, rule f3, rule g3)
qed

text \<open>
  C7 (as stated, refuted).  A request with image type 0 maps to the extension
  \<open>unknown\<close>; the path \<open>foo.unknown\<close> is looked up like any other, and when a
  file of that name exists the server answers Found (type 1) with its bytes.
\<close>

theorem C7_unknown_type_can_be_found:
  "mapTypeToExtension (imageType (extractDetails
       [112, 0, 0, 0, 0, 0, 0, 5, 0, 0, 0, 3, 102, 111, 111])) = ''unknown''
   \<and> handleData (\<lambda>p. if p = str ''foo.unknown'' then Some (Readable [1, 2, 3]) else None)
        [112, 0, 0, 0, 0, 0, 0, 5, 0, 0, 0, 3, 102, 111, 111] (initialize_singleton 999)
     = Inr ([Write [116, 0, 0, 1, 0, 0, 0, 5, 0, 0, 0, 3, 1, 2, 3], End],
            \<lparr>sequenceNum = 1, timeMark = 999\<rparr>)
   \<and> extractDataBits [116, 0, 0, 1, 0, 0, 0, 5, 0, 0, 0, 3, 1, 2, 3] 4 2 = 1"
proof -
  let ?req = "[112, 0, 0, 0, 0, 0, 0, 5, 0, 0, 0, 3, 102, 111, 111] :: buffer"
  let ?fs = "\<lambda>p. if p = str ''foo.unknown'' then Some (Readable [1, 2, 3]) else None"
  have v: "extractDataBits ?req 0 4 = 7" by code_simp
  have t: "extractDataBits ?req 32 32 = 5" by code_simp
  have i: "extractDataBits ?req 64 4 = 0" by code_simp
  have n: "extractDataBits ?req 68 28 = 3" by code_simp
  have b: "buffer_toString [102, 111, 111] = str ''foo''"
    using buffer_toString_ascii [of "str ''foo''"] by (simp add: is_ascii_def str_def)
  have d: "extractDetails ?req
      = \<lparr>version = 7, timestamp = 5, imageType = 0, fileName = str ''foo''\<rparr>"
    by (simp add: extractDetails_def getFileName_slice v t i n b)
  have p: "constructFilePath (str ''foo'') 0 = str ''foo.unknown''"
    by (simp add: constructFilePath_def mapTypeToExtension_def str_def)
  have s: "getSequenceNumber (initialize_singleton 999) = (1, \<lparr>sequenceNum = 1, timeMark = 999\<rparr>)"
    using getSequenceNumber_eval [of 999 999]
    by (simp add: initialize_singleton_def valid_seed_def)
  have h: "assemblePacket (configure 1 7 1 5 3) = [116, 0, 0, 1, 0, 0, 0, 5, 0, 0, 0, 3]"
    by code_simp
  have r: "handleData ?fs ?req (initialize_singleton 999)
     = Inr ([Write [116, 0, 0, 1, 0, 0, 0, 5, 0, 0, 0, 3, 1, 2, 3], End],
            \<lparr>sequenceNum = 1, timeMark = 999\<rparr>)"
    by (simp add: handleData_def Let_def d p existsSync_def sendImageResponse_def
        readFileSync_def preparePacket_Some s h)
  have e: "extractDataBits [116, 0, 0, 1, 0, 0, 0, 5, 0, 0, 0, 3, 1, 2, 3] 4 2 = 1"
    by code_simp
  show ?thesis using d r e by (simp add: mapTypeToExtension_def)
qed

text \<open>
  C7 (amended).  For every request whose resolved path does not exist on the
  server's file system (for an image type outside 1, 2, 3, 4, 5, 15 that path
  is \<open>fileName.unknown\<close>, checked like any other), the server writes exactly
  one packet, the 12-byte header alone with type 2 and size 0, and then ends
  the connection.
\<close>

theorem C7_absent_resource_answered:
  assumes "\<not> existsSync fs (constructFilePath (fileName (extractDetails data))
                              (imageType (extractDetails data)))"
  shows "\<exists>packet st'. handleData fs data st = Inr ([Write packet, End], st')
           \<and> length packet = 12
           \<and> extractDataBits packet 4 2 = 2
           \<and> extractDataBits packet 64 32 = 0"
proof -
  let ?H = "assemblePacket (configure (fst (getSequenceNumber st))
              (version (extractDetails data)) 2 (timestamp (extractDetails data)) 0)"
  have "handleData fs data st = Inr ([Write ?H, End], snd (getSequenceNumber st))"
    using assms by (rule handleData_absent)
  moreover have "length ?H = 12" by (rule assemblePacket_fields)
  moreover have "extractDataBits ?H 4 2 = 2"
    using type_field [of 2 _ _ _ 0 "[]"] by simp
  moreover have "extractDataBits ?H 64 32 = 0" by (rule size_field_zero)
  ultimately show ?thesis by blast
qed

theorem C7_absent_resource_answered_witness:
  "\<not> existsSync (\<lambda>p. None)
       (constructFilePath
          (fileName (extractDetails [112, 0, 0, 0, 0, 0, 0, 5, 0, 0, 0, 3, 102, 111, 111]))
          (imageType (extractDetails [112, 0, 0, 0, 0, 0, 0, 5, 0, 0, 0, 3, 102, 111, 111])))
   \<and> (\<exists>packet st'.
         handleData (\<lambda>p. None) [112, 0, 0, 0, 0, 0, 0, 5, 0, 0, 0, 3, 102, 111, 111]
           (initialize_singleton 10) = Inr ([Write packet, End], st')
         \<and> length packet = 12
         \<and> extractDataBits packet 4 2 = 2
         \<and> extractDataBits packet 64 32 = 0)"
proof -
  have h: "\<not> existsSync (\<lambda>p. None)
       (constructFilePath
          (fileName (extractDetails [112, 0, 0, 0, 0, 0, 0, 5, 0, 0, 0, 3, 102, 111, 111]))
          (imageType (extractDetails [112, 0, 0, 0, 0, 0, 0, 5, 0, 0, 0, 3, 102, 111, 111])))"
    by (simp add: existsSync_def)
  from C7_absent_resource_answered [OF h, of "initialize_singleton 10"] h
  show ?thesis by blast
qed

text \<open>
  C8 (code evaluated at the failing input).  For the one-character name
  U+00E9 \<open>toByteArr\<close> counts 1 byte, while \<open>Buffer.write\<close> encodes the name in
  UTF-8 as the 2 bytes C3 A9.  The packet has room for 1 name byte, so nothing
  of the name is written: the byte after the header stays 0 and the server
  reads the name U+0000.
\<close>

theorem C8_name_length_of_e_acute:
  "calculateNameLength [0xE9] = 1
   \<and> utf8_encode [0xE9] = [0xC3, 0xA9]
   \<and> getPacket (initialize 7 0 5 1 [0xE9]) = [112, 0, 0, 0, 0, 0, 0, 5, 16, 0, 0, 1, 0]
   \<and> getFileName [112, 0, 0, 0, 0, 0, 0, 5, 16, 0, 0, 1, 0] = [0]"
proof -
  have a: "calculateNameLength [0xE9] = 1" by code_simp
  have b: "utf8_encode [0xE9] = [0xC3, 0xA9]" by code_simp
  have c: "getPacket (initialize 7 0 5 1 [0xE9]) = [112, 0, 0, 0, 0, 0, 0, 5, 16, 0, 0, 1, 0]"
    by code_simp
  have n: "extractDataBits [112, 0, 0, 0, 0, 0, 0, 5, 16, 0, 0, 1, 0] 68 28 = 1"
    by code_simp
  have s: "buffer_toString [0] = [0]"
    using buffer_toString_ascii [of "[0]"] by (simp add: is_ascii_def)
  have d: "getFileName [112, 0, 0, 0, 0, 0, 0, 5, 16, 0, 0, 1, 0] = [0]"
    by (simp add: getFileName_slice n s)
  show ?thesis using a b c d by simp
qed

text \<open>
  C9.  Writing a field with \<open>insertData\<close> or with \<open>encodeBitSection\<close> leaves
  every bit \<open>j\<close> outside \<open>[bitOffset, bitOffset + bitWidth)\<close> as it was, and
  the buffer keeps its length.  This holds for every buffer, offset, width
  and value, so in particular for a field within the capacity of the buffer
  and a value that fits its width, on buffers of zeros as of ones.
\<close>

theorem C9_bit_field_isolation:
  assumes "j < bitOffset \<or> bitOffset + bitWidth \<le> j"
  shows "get_bit (insertData buffer v bitOffset bitWidth) j = get_bit buffer j
       \<and> get_bit (encodeBitSection buffer v bitOffset bitWidth) j = get_bit buffer j
       \<and> length (insertData buffer v bitOffset bitWidth) = length buffer
       \<and> length (encodeBitSection buffer v bitOffset bitWidth) = length buffer"
  using assms by (auto simp add: get_bit_insertData get_bit_encodeBitSection)

theorem C9_bit_field_isolation_witness:
  "((7::nat) < 3 \<or> 3 + 4 \<le> (7::nat))
   \<and> get_bit (insertData [255, 255] 0 3 4) 7 = get_bit [255, 255] 7
   \<and> get_bit (encodeBitSection [255, 255] 0 3 4) 7 = get_bit [255, 255] 7"
proof -
  have h: "(7::nat) < 3 \<or> 3 + 4 \<le> (7::nat)" by simp
  from C9_bit_field_isolation [OF h, of "[255, 255]" 0] h show ?thesis by blast
qed




end
